theory Spec2Isabelle
  imports Main "HOL-Library.Multiset" "HOL-Library.Word"
begin

section \<open>Data model of the game manager (src/gamemanager.cpp)\<close>

text \<open>
  Players are heap objects: the manager's roster \<open>m_players\<close> is a list of pointers, and
  \<open>gameTick\<close> copies that list of pointers before it mutates the players behind them. The
  model therefore keeps an explicit store from addresses to player values, and every list of
  players is a list of addresses.

  \<open>QPoint\<close> is a pair of C++ \<open>int\<close>s: a coordinate is a 32-bit word, \<open>+ 1\<close> and \<open>- 1\<close>
  wrap around as the machine's two's complement arithmetic does, and \<open>sint\<close> reads the
  signed value. The manager only adds, subtracts and compares coordinates for equality.
\<close>

type_synonym addr = nat
type_synonym point = "32 word \<times> 32 word"

text \<open>
  Modelled from the spec: \<open>NetworkClient\<close> (networkclient.h) is not part of the source
  at hand. The manager reads its remote name and cuts its \<open>nameChanged\<close> signal.
\<close>

record client =
  remoteName :: string
  nameChangeConnected :: bool

text \<open>
  Modelled from the spec: \<open>Player\<close> (player.h) is not part of the source at hand. Its
  fields are the ones the manager reads and writes through \<open>id/setId\<close>, \<open>setName\<close>,
  \<open>position/setPosition\<close>, \<open>isAlive/setAlive\<close>, \<open>command\<close>, \<open>addWin\<close> and
  \<open>networkClient\<close>; a null \<open>networkClient\<close> is \<open>None\<close>.
\<close>

record player =
  pid :: int
  pname :: string
  position :: point
  alive :: bool
  command :: string
  wins :: nat
  networkClient :: "client option"

record bomb =
  bombPosition :: point
  bombOwner :: addr

text \<open>
  Modelled from the spec: \<open>Map\<close> (map.h) is not part of the source at hand. The manager
  uses \<open>name()\<close>, \<open>startingPositions()\<close>, \<open>isValidPosition(p)\<close> and \<open>bombs()\<close>.
\<close>

record gmap =
  mapName :: string
  startingPositions :: "point list"
  isValidPosition :: "point \<Rightarrow> bool"
  bombs :: "bomb list"

text \<open>
  What the manager sends out of the simulation: signals, messages on a player's channel
  (named by the player's address), timers it schedules and the lists it republishes to the
  view. \<open>SendState r ops\<close> is \<open>sendState(ops, m_map, r)\<close> on the channel of \<open>r\<close>; the map
  argument is always the manager's current map and is not repeated in the event.
\<close>

datatype event =
    GameOver
  | SendEndOfRound addr
  | SendState addr "addr list"
  | StartRoundScheduled
  | EndScreenShown
  | SocketClosed
  | PlayersExported "addr list"
  | MapExported string
  | Warning string

text \<open>
  The collaborators whose code is outside the source at hand are parameters:
  \<open>readMap path\<close> is \<open>new Map(this, path)\<close>, \<open>None\<close> when \<open>isValid()\<close> is false;
  \<open>addBomb\<close> is \<open>Map::addBomb(position, player)\<close>;
  \<open>qrand\<close> is the C library generator as a function from its hidden state to the drawn
  number and the next state.
\<close>

record env =
  readMap :: "string \<Rightarrow> gmap option"
  addBomb :: "gmap \<Rightarrow> point \<Rightarrow> addr \<Rightarrow> gmap"
  qrand :: "nat \<Rightarrow> nat \<times> nat"

text \<open>
  The state of a constructed manager (the default map has been loaded, so \<open>m_map\<close> is
  not null). \<open>timerActive\<close> is \<open>m_timer.isActive()\<close>, \<open>rng\<close> the hidden state of
  \<open>qrand\<close>, \<open>nextAddr\<close> the allocator behind \<open>new Player\<close>, and \<open>trace\<close> collects the
  events sent so far. Sound playback and settings are left out. The round counter and the
  ids are C++ \<open>int\<close>s that stay far from the limits of the type (the counter is reset
  when it has reached 5, an id is an index of the roster), so they are integers here.
\<close>

record game =
  m_map :: gmap
  m_players :: "addr list"
  heap :: "addr \<Rightarrow> player"
  m_roundsPlayed :: int
  timerActive :: bool
  rng :: nat
  nextAddr :: addr
  trace :: "event list"

text \<open>
  What C++ leaves undefined is an error value of the model: a call through a null channel
  pointer, and \<open>QList::operator[]\<close> out of range.
\<close>

datatype fault =
    NullChannel addr
  | IndexOutOfRange nat

section \<open>Operations\<close>

subsection \<open>List helpers of QList\<close>

definition takeAt :: "nat \<Rightarrow> 'a list \<Rightarrow> 'a list" where
  "takeAt i xs = take i xs @ drop (Suc i) xs"

fun indexOf :: "'a \<Rightarrow> 'a list \<Rightarrow> nat option" where
  "indexOf a [] = None"
| "indexOf a (x # xs) =
     (if x = a then Some 0 else map_option Suc (indexOf a xs))"

definition qSwap :: "nat \<Rightarrow> nat \<Rightarrow> 'a list \<Rightarrow> 'a list" where
  "qSwap i j xs = xs[i := xs ! j, j := xs ! i]"

definition emit :: "event list \<Rightarrow> game \<Rightarrow> game" where
  "emit es s = s\<lparr>trace := trace s @ es\<rparr>"

definition exportPlayerList :: "game \<Rightarrow> game" where
  "exportPlayerList s = emit [PlayersExported (m_players s)] s"

text \<open>The loop \<open>for i: m_players[i]->setId(i)\<close>, from index \<open>i\<close> on.\<close>

fun setIds :: "nat \<Rightarrow> addr list \<Rightarrow> (addr \<Rightarrow> player) \<Rightarrow> (addr \<Rightarrow> player)" where
  "setIds i [] h = h"
| "setIds i (p # ps) h = setIds (Suc i) ps (h(p := (h p)\<lparr>pid := int i\<rparr>))"

subsection \<open>loadMap\<close>

text \<open>
  Lines 125-132. \<open>kickLoop cap n h ps\<close> runs the loop from index \<open>i = n - 1\<close> downwards;
  \<open>n = 0\<close> is the loop's exit at \<open>i = -1\<close>.
\<close>

fun kickLoop :: "nat \<Rightarrow> nat \<Rightarrow> (addr \<Rightarrow> player) \<Rightarrow> addr list \<Rightarrow> addr list" where
  "kickLoop cap 0 h ps = ps"
| "kickLoop cap (Suc i) h ps =
     (if length ps \<le> cap then ps
      else if networkClient (h (ps ! i)) = None then kickLoop cap i h ps
      else kickLoop cap i h (takeAt i ps))"

text \<open>Lines 135-138: position and id of every player from the new map, by index.\<close>

fun placeLoop ::
  "point list \<Rightarrow> nat \<Rightarrow> addr list \<Rightarrow> (addr \<Rightarrow> player) \<Rightarrow> fault + (addr \<Rightarrow> player)" where
  "placeLoop sp i [] h = Inr h"
| "placeLoop sp i (p # ps) h =
     (if i < length sp
      then placeLoop sp (Suc i) ps (h(p := (h p)\<lparr>position := sp ! i, pid := int i\<rparr>))
      else Inl (IndexOutOfRange i))"

definition loadMap :: "env \<Rightarrow> string \<Rightarrow> game \<Rightarrow> fault + game" where
  "loadMap e path s =
     (case readMap e path of
        None \<Rightarrow> Inr (emit [Warning ''Map: Parsed map isn't expected size''] s)
      | Some m \<Rightarrow>
          (let ps = kickLoop (length (startingPositions m)) (length (m_players s))
                      (heap s) (m_players s)
           in case placeLoop (startingPositions m) 0 ps (heap s) of
                Inl f \<Rightarrow> Inl f
              | Inr h \<Rightarrow>
                  Inr (emit [PlayersExported ps, MapExported (mapName m)]
                        (s\<lparr>m_map := m, m_players := ps, heap := h\<rparr>))))"

subsection \<open>explosionAt\<close>

fun killAt :: "point \<Rightarrow> addr list \<Rightarrow> (addr \<Rightarrow> player) \<Rightarrow> (addr \<Rightarrow> player)" where
  "killAt pos [] h = h"
| "killAt pos (p # ps) h =
     killAt pos ps (if position (h p) = pos then h(p := (h p)\<lparr>alive := False\<rparr>) else h)"

definition explosionAt :: "point \<Rightarrow> game \<Rightarrow> game" where
  "explosionAt pos s = s\<lparr>heap := killAt pos (m_players s) (heap s)\<rparr>"

subsection \<open>endRound\<close>

definition hasClient :: "(addr \<Rightarrow> player) \<Rightarrow> addr \<Rightarrow> bool" where
  "hasClient h p = (networkClient (h p) \<noteq> None)"

text \<open>Lines 175-180: the first alive player in roster order gets a win, then \<open>break\<close>.\<close>

fun awardWin :: "addr list \<Rightarrow> (addr \<Rightarrow> player) \<Rightarrow> (addr \<Rightarrow> player)" where
  "awardWin [] h = h"
| "awardWin (p # ps) h =
     (if alive (h p) then h(p := (h p)\<lparr>wins := Suc (wins (h p))\<rparr>) else awardWin ps h)"

definition endRound :: "game \<Rightarrow> game" where
  "endRound s =
     (let s1 = emit (map SendEndOfRound (filter (hasClient (heap s)) (m_players s)))
                 (s\<lparr>timerActive := False\<rparr>)
      in if m_roundsPlayed s1 < 5
         then emit [StartRoundScheduled]
                (s1\<lparr>heap := awardWin (m_players s1) (heap s1),
                    m_roundsPlayed := m_roundsPlayed s1 + 1\<rparr>)
         else (emit [EndScreenShown] s1)\<lparr>m_roundsPlayed := 0\<rparr>)"

definition stopGame :: "game \<Rightarrow> game" where
  "stopGame s = (endRound s)\<lparr>m_roundsPlayed := 0\<rparr>"

definition togglePause :: "game \<Rightarrow> game" where
  "togglePause s = s\<lparr>timerActive := \<not> timerActive s\<rparr>"

subsection \<open>startRound\<close>

text \<open>Lines 198-201, with the starting positions of the map still loaded.\<close>

fun reviveLoop ::
  "point list \<Rightarrow> nat \<Rightarrow> addr list \<Rightarrow> (addr \<Rightarrow> player) \<Rightarrow> fault + (addr \<Rightarrow> player)" where
  "reviveLoop sp i [] h = Inr h"
| "reviveLoop sp i (p # ps) h =
     (if i < length sp
      then reviveLoop sp (Suc i) ps (h(p := (h p)\<lparr>position := sp ! i, alive := True\<rparr>))
      else Inl (IndexOutOfRange i))"

text \<open>
  Lines 205-207: \<open>m_players[i]->networkClient()->disconnect(SIGNAL(nameChanged(QString)))\<close>
  for every player of the roster, with no test of the channel pointer.
\<close>

fun lockNames :: "addr list \<Rightarrow> (addr \<Rightarrow> player) \<Rightarrow> fault + (addr \<Rightarrow> player)" where
  "lockNames [] h = Inr h"
| "lockNames (p # ps) h =
     (case networkClient (h p) of
        None \<Rightarrow> Inl (NullChannel p)
      | Some c \<Rightarrow>
          lockNames ps (h(p := (h p)\<lparr>networkClient := Some (c\<lparr>nameChangeConnected := False\<rparr>)\<rparr>)))"

definition startRound :: "env \<Rightarrow> game \<Rightarrow> fault + game" where
  "startRound e s =
     (if m_players s = [] then Inr s
      else case reviveLoop (startingPositions (m_map s)) 0 (m_players s) (heap s) of
             Inl f \<Rightarrow> Inl f
           | Inr h \<Rightarrow>
               (case loadMap e (mapName (m_map s)) (s\<lparr>heap := h\<rparr>) of
                  Inl f \<Rightarrow> Inl f
                | Inr s1 \<Rightarrow>
                    (case lockNames (m_players s1) (heap s1) of
                       Inl f \<Rightarrow> Inl f
                     | Inr h2 \<Rightarrow> Inr (s1\<lparr>heap := h2, timerActive := True\<rparr>))))"

subsection \<open>gameTick\<close>

text \<open>
  Lines 213-216. \<open>shuffle rnd index ps g\<close> runs the loop from \<open>index\<close> down to 1 on the
  copied list of pointers, drawing from the generator state \<open>g\<close>.
\<close>

fun shuffle :: "(nat \<Rightarrow> nat \<times> nat) \<Rightarrow> nat \<Rightarrow> addr list \<Rightarrow> nat \<Rightarrow> addr list \<times> nat" where
  "shuffle rnd 0 ps g = (ps, g)"
| "shuffle rnd (Suc k) ps g =
     (case rnd g of (r, g') \<Rightarrow> shuffle rnd k (qSwap (Suc k) (r mod (Suc k + 1)) ps) g')"

text \<open>Lines 226-239: the target of a directional command; \<open>None\<close> for any other.\<close>

definition targetOf :: "string \<Rightarrow> point \<Rightarrow> point option" where
  "targetOf cmd pos =
     (if cmd = ''UP'' then Some (fst pos, snd pos - 1)
      else if cmd = ''DOWN'' then Some (fst pos, snd pos + 1)
      else if cmd = ''LEFT'' then Some (fst pos - 1, snd pos)
      else if cmd = ''RIGHT'' then Some (fst pos + 1, snd pos)
      else None)"

text \<open>Lines 241-256: the three tests on the target cell.\<close>

definition playerAt :: "addr list \<Rightarrow> (addr \<Rightarrow> player) \<Rightarrow> point \<Rightarrow> bool" where
  "playerAt players h pos = list_ex (\<lambda>q. alive (h q) \<and> position (h q) = pos) players"

definition bombAt :: "gmap \<Rightarrow> point \<Rightarrow> bool" where
  "bombAt m pos = list_ex (\<lambda>b. bombPosition b = pos) (bombs m)"

definition canWalk :: "addr list \<Rightarrow> (addr \<Rightarrow> player) \<Rightarrow> gmap \<Rightarrow> point \<Rightarrow> bool" where
  "canWalk players h m pos =
     (if \<not> isValidPosition m pos then False
      else if playerAt players h pos then False
      else if bombAt m pos then False
      else True)"

text \<open>Lines 219-260: the body of the loop for the player \<open>p = players[i]\<close>.\<close>

definition processPlayer ::
  "env \<Rightarrow> addr list \<Rightarrow> addr \<Rightarrow> (addr \<Rightarrow> player) \<times> gmap \<Rightarrow> (addr \<Rightarrow> player) \<times> gmap" where
  "processPlayer e players p hm =
     (case hm of (h, m) \<Rightarrow>
        if command (h p) = [] then (h, m)
        else (case targetOf (command (h p)) (position (h p)) of
                Some pos \<Rightarrow>
                  if canWalk players h m pos
                  then (h(p := (h p)\<lparr>position := pos\<rparr>), m)
                  else (h, m)
              | None \<Rightarrow>
                  if command (h p) = ''BOMB''
                  then (h, addBomb e m (position (h p)) p)
                  else (h, m)))"

fun processLoop ::
  "env \<Rightarrow> addr list \<Rightarrow> addr list \<Rightarrow> (addr \<Rightarrow> player) \<times> gmap \<Rightarrow> (addr \<Rightarrow> player) \<times> gmap" where
  "processLoop e players [] hm = hm"
| "processLoop e players (p # ps) hm = processLoop e players ps (processPlayer e players p hm)"

text \<open>Lines 263-268.\<close>

fun countDead :: "(addr \<Rightarrow> player) \<Rightarrow> addr list \<Rightarrow> int" where
  "countDead h [] = 0"
| "countDead h (p # ps) = (if \<not> alive (h p) then 1 else 0) + countDead h ps"

text \<open>
  Lines 279-285, from index \<open>i\<close> on: one \<open>sendState\<close> per player of the list \<open>players\<close>
  that has a channel, with the list less its entry \<open>i\<close>.
\<close>

definition sendStates :: "(addr \<Rightarrow> player) \<Rightarrow> addr list \<Rightarrow> event list" where
  "sendStates h players =
     concat (map (\<lambda>i. if networkClient (h (players ! i)) = None then []
                      else [SendState (players ! i) (takeAt i players)])
                 [0 ..< length players])"

text \<open>
  The state after the loop over the commands (line 261): the shuffled copy of the roster
  and the players and map as the commands left them.
\<close>

definition resolved :: "env \<Rightarrow> game \<Rightarrow> addr list \<times> game" where
  "resolved e s =
     (case shuffle (qrand e) (length (m_players s) - 1) (m_players s) (rng s) of
        (players, g) \<Rightarrow>
          (case processLoop e players players (heap s, m_map s) of
             (h, m) \<Rightarrow> (players, s\<lparr>heap := h, m_map := m, rng := g\<rparr>)))"

text \<open>
  \<open>gameOver\<close> is connected to \<open>endRound\<close> (line 45) in the same thread, so emitting it runs
  \<open>endRound\<close> before \<open>gameTick\<close> returns.
\<close>

definition gameTick :: "env \<Rightarrow> game \<Rightarrow> game" where
  "gameTick e s =
     (case resolved e s of
        (players, s1) \<Rightarrow>
          (let dead = countDead (heap s1) players
           in if dead > 0 \<and> int (length players) - dead < 2
              then endRound (emit [GameOver] s1)
              else emit (sendStates (heap s1) (filter (\<lambda>p. alive (heap s1 p)) (m_players s1)))
                     s1))"

subsection \<open>Connections\<close>

text \<open>
  Modelled from the spec: the constructor \<open>Player(this, id, client)\<close> (player.h) is not
  part of the source at hand; a new player is alive, has no pending command and no win.
\<close>

definition newPlayer :: "int \<Rightarrow> client option \<Rightarrow> player" where
  "newPlayer i c =
     \<lparr>pid = i, pname = [], position = (0, 0), alive = True, command = [], wins = 0,
      networkClient = c\<rparr>"

definition addPlayer :: "client option \<Rightarrow> game \<Rightarrow> game" where
  "addPlayer c s =
     (if length (m_players s) \<ge> length (startingPositions (m_map s)) then s
      else
        (let a = nextAddr s;
             pl = (newPlayer (int (length (m_players s))) c)
                    \<lparr>position := startingPositions (m_map s) ! length (m_players s),
                     pname := (case c of None \<Rightarrow> ''Local user'' | Some cl \<Rightarrow> remoteName cl)\<rparr>
         in exportPlayerList
              (s\<lparr>m_players := m_players s @ [a], heap := (heap s)(a := pl),
                 nextAddr := Suc a\<rparr>)))"

definition clientConnect :: "client \<Rightarrow> game \<Rightarrow> game" where
  "clientConnect c s =
     (if length (m_players s) \<ge> length (startingPositions (m_map s)) \<or> timerActive s
      then emit [SocketClosed] s
      else addPlayer (Some c) s)"

text \<open>
  \<open>sender\<close> is \<open>qobject_cast<Player*>(sender())\<close>: \<open>None\<close> when the cast gives null.
\<close>

definition clientDisconnected :: "addr option \<Rightarrow> game \<Rightarrow> game" where
  "clientDisconnected sender s =
     (if timerActive s then s
      else case sender of
             None \<Rightarrow> emit [Warning ''GameManager: invalid sender for disconnect signal''] s
           | Some a \<Rightarrow>
               (case indexOf a (m_players s) of
                  None \<Rightarrow> emit [Warning ''GameManager: unable to find disconnecting client.''] s
                | Some i \<Rightarrow>
                    (let ps = takeAt i (m_players s)
                     in exportPlayerList (s\<lparr>m_players := ps, heap := setIds 0 ps (heap s)\<rparr>))))"

text \<open>Lines 351-356: the first player without a channel is taken out, then \<open>break\<close>.\<close>

fun dropFirstHuman :: "(addr \<Rightarrow> player) \<Rightarrow> addr list \<Rightarrow> addr list" where
  "dropFirstHuman h [] = []"
| "dropFirstHuman h (p # ps) =
     (if networkClient (h p) = None then ps else p # dropFirstHuman h ps)"

definition removeHumanPlayers :: "game \<Rightarrow> game" where
  "removeHumanPlayers s =
     (let ps = dropFirstHuman (heap s) (m_players s)
      in exportPlayerList (s\<lparr>m_players := ps, heap := setIds 0 ps (heap s)\<rparr>))"

text \<open>
  Modelled from the spec: \<open>Player::setCommand\<close> (player.h) is not part of the source at
  hand; an intent from the channel or the keyboard overwrites the pending command.
\<close>

definition setCommand :: "addr \<Rightarrow> string \<Rightarrow> game \<Rightarrow> game" where
  "setCommand a c s = s\<lparr>heap := (heap s)(a := (heap s a)\<lparr>command := c\<rparr>)\<rparr>"

section \<open>Notions the properties are stated with\<close>

text \<open>The events one call of \<open>gameTick\<close> adds to the trace.\<close>

definition tickEvents :: "env \<Rightarrow> game \<Rightarrow> event list" where
  "tickEvents e s = drop (length (trace s)) (trace (gameTick e s))"

text \<open>The players of the roster that are alive, and those that are dead, in a store.\<close>

definition aliveIn :: "(addr \<Rightarrow> player) \<Rightarrow> addr list \<Rightarrow> addr list" where
  "aliveIn h ps = filter (\<lambda>p. alive (h p)) ps"

definition deadIn :: "(addr \<Rightarrow> player) \<Rightarrow> addr list \<Rightarrow> addr list" where
  "deadIn h ps = filter (\<lambda>p. \<not> alive (h p)) ps"

text \<open>
  The test of line 270 on the roster: some player is dead and fewer than two are alive.
\<close>

definition roundEnds :: "game \<Rightarrow> bool" where
  "roundEnds s \<longleftrightarrow>
     deadIn (heap s) (m_players s) \<noteq> [] \<and> length (aliveIn (heap s) (m_players s)) < 2"

text \<open>The players of the roster that were alive in \<open>s\<close> and are dead in \<open>s'\<close>.\<close>

definition diedBetween :: "game \<Rightarrow> game \<Rightarrow> addr list" where
  "diedBetween s s' = filter (\<lambda>p. alive (heap s p) \<and> \<not> alive (heap s' p)) (m_players s)"

text \<open>The ids of the roster, in array order.\<close>

definition rosterIds :: "game \<Rightarrow> int list" where
  "rosterIds s = map (\<lambda>p. pid (heap s p)) (m_players s)"

definition isLocal :: "(addr \<Rightarrow> player) \<Rightarrow> addr \<Rightarrow> bool" where
  "isLocal h p = (networkClient (h p) = None)"

text \<open>
  The shuffle as the specification words it: Fisher-Yates over the indices \<open>count - 1\<close>
  down to 1, each swapped with a chosen index. \<open>choice index\<close> is the index chosen for
  \<open>index\<close>.
\<close>

fun fisherYatesSpec :: "(nat \<Rightarrow> nat) \<Rightarrow> nat \<Rightarrow> 'a list \<Rightarrow> 'a list" where
  "fisherYatesSpec choice 0 xs = xs"
| "fisherYatesSpec choice (Suc k) xs =
     fisherYatesSpec choice k (qSwap (Suc k) (choice (Suc k)) xs)"

text \<open>
  The index the code chooses for each index of the shuffle that starts at \<open>index\<close> with
  the generator in state \<open>g\<close>: \<open>qrand() % (index + 1)\<close>.
\<close>

fun chosen :: "(nat \<Rightarrow> nat \<times> nat) \<Rightarrow> nat \<Rightarrow> nat \<Rightarrow> nat \<Rightarrow> nat" where
  "chosen rnd 0 g = (\<lambda>i. 0)"
| "chosen rnd (Suc k) g =
     (case rnd g of (r, g') \<Rightarrow> (chosen rnd k g')(Suc k := r mod (Suc k + 1)))"

text \<open>
  \<open>RAND_MAX\<close> is a constant of the C library that the source does not fix; it is a
  parameter here. \<open>drawsChoosing randMax index j\<close> is the number of values of \<open>qrand()\<close>
  in \<open>[0, randMax]\<close> for which line 215 swaps \<open>index\<close> with \<open>j\<close>.
\<close>

definition drawsChoosing :: "nat \<Rightarrow> nat \<Rightarrow> nat \<Rightarrow> nat" where
  "drawsChoosing randMax index j =
     length (filter (\<lambda>r. r mod (index + 1) = j) [0 ..< Suc randMax])"

section \<open>Example configurations\<close>

definition arena :: gmap where
  "arena =
     \<lparr>mapName = ''arena'', startingPositions = [(1, 1), (1, 3), (3, 1), (3, 3)],
      isValidPosition = (\<lambda>pos. 0 < fst pos \<and> fst pos < 5 \<and> 0 < snd pos \<and> snd pos < 5),
      bombs = []\<rparr>"

definition closet :: gmap where
  "closet =
     \<lparr>mapName = ''closet'', startingPositions = [(1, 1)],
      isValidPosition = (\<lambda>pos. 0 < fst pos \<and> fst pos < 3 \<and> 0 < snd pos \<and> snd pos < 3),
      bombs = []\<rparr>"

definition demoEnv :: env where
  "demoEnv =
     \<lparr>readMap = (\<lambda>path. if path = ''arena'' then Some arena
                         else if path = ''closet'' then Some closet else None),
      addBomb = (\<lambda>m pos owner.
                   m\<lparr>bombs := bombs m @ [\<lparr>bombPosition = pos, bombOwner = owner\<rparr>]\<rparr>),
      qrand = (\<lambda>g. (g mod 32768, (g * 1103515245 + 12345) mod 2147483648))\<rparr>"

definition lobby :: game where
  "lobby =
     \<lparr>m_map = arena, m_players = [], heap = (\<lambda>a. newPlayer 0 None), m_roundsPlayed = 0,
      timerActive = False, rng = 1, nextAddr = 0, trace = []\<rparr>"

definition bot :: "string \<Rightarrow> client" where
  "bot n = \<lparr>remoteName = n, nameChangeConnected = True\<rparr>"

text \<open>Two network players in the lobby, and the round they start.\<close>

definition twoBots :: game where
  "twoBots = clientConnect (bot ''b'') (clientConnect (bot ''a'') lobby)"

definition orElse :: "fault + game \<Rightarrow> game \<Rightarrow> game" where
  "orElse r s = (case r of Inl f \<Rightarrow> s | Inr s' \<Rightarrow> s')"

definition duelStarted :: game where
  "duelStarted = orElse (startRound demoEnv twoBots) twoBots"

text \<open>
  The second player is blown up at its starting position, the next tick resolves the
  round, and the timer is started again by the pause toggle before the scheduled start.
\<close>

definition oneDown :: game where
  "oneDown = explosionAt (1, 3) duelStarted"

definition resumed :: game where
  "resumed = togglePause (gameTick demoEnv oneDown)"

text \<open>
  One round of a match of the two: the scheduled \<open>startRound\<close>, the second player blown
  up at its starting position (\<open>blownUp\<close>), and the tick that resolves the round.
\<close>

definition blownUp :: "game \<Rightarrow> game" where
  "blownUp s = explosionAt (1, 3) (orElse (startRound demoEnv s) s)"

definition playRound :: "game \<Rightarrow> game" where
  "playRound s = gameTick demoEnv (blownUp s)"

definition afterFive :: game where
  "afterFive = playRound (playRound (playRound (playRound (playRound twoBots))))"

definition sixthRound :: game where
  "sixthRound = blownUp afterFive"

text \<open>
  What stays true of the match of the two between its rounds: the roster, the map, the two
  channels, and no pending command.
\<close>

definition idleDuel :: "game \<Rightarrow> bool" where
  "idleDuel s \<longleftrightarrow>
     m_players s = [0, 1] \<and> m_map s = arena \<and>
     networkClient (heap s 0) \<noteq> None \<and> networkClient (heap s 1) \<noteq> None \<and>
     command (heap s 0) = [] \<and> command (heap s 1) = []"

text \<open>
  The two of the started round walk towards the cell between them: the first is told to go
  down, the second to go up.
\<close>

definition faceOff :: game where
  "faceOff = setCommand 1 ''UP'' (setCommand 0 ''DOWN'' duelStarted)"

text \<open>The same with the generator in the state 0, whose draw swaps the two.\<close>

definition faceOffOther :: game where
  "faceOffOther = faceOff\<lparr>rng := 0\<rparr>"

text \<open>
  The second player's connection drops while the round runs, and the round is paused.
\<close>

definition dropped :: game where
  "dropped = clientDisconnected (Some 1) duelStarted"

definition paused :: game where
  "paused = togglePause duelStarted"

text \<open>Two local players; a local player and a network player.\<close>

definition twoHumans :: game where
  "twoHumans = addPlayer None (addPlayer None lobby)"

definition mixed :: game where
  "mixed = clientConnect (bot ''a'') (addPlayer None lobby)"

text \<open>
  A local player and two network players; the timer is started by the pause toggle and the
  first network player is blown up at its starting position.
\<close>

definition threeUp :: game where
  "threeUp =
     explosionAt (1, 3)
       (togglePause
          (clientConnect (bot ''b'') (clientConnect (bot ''a'') (addPlayer None lobby))))"

section \<open>Facts about the operations\<close>

lemmas example_defs =
  arena_def closet_def demoEnv_def lobby_def bot_def twoBots_def orElse_def duelStarted_def
  oneDown_def resumed_def playRound_def blownUp_def afterFive_def sixthRound_def twoHumans_def mixed_def
  faceOff_def setCommand_def threeUp_def faceOffOther_def dropped_def paused_def

lemmas operation_defs =
  startRound_def clientConnect_def addPlayer_def loadMap_def newPlayer_def
  exportPlayerList_def emit_def takeAt_def gameTick_def resolved_def endRound_def
  explosionAt_def togglePause_def sendStates_def processPlayer_def targetOf_def canWalk_def
  playerAt_def bombAt_def qSwap_def hasClient_def clientDisconnected_def

subsection \<open>takeAt, indexOf\<close>

lemma length_takeAt: "i < length xs \<Longrightarrow> length (takeAt i xs) = length xs - 1"
  by (simp add: takeAt_def)

lemma set_takeAt_subset: "set (takeAt i xs) \<subseteq> set xs"
  by (auto simp: takeAt_def dest: in_set_takeD in_set_dropD)

lemma takeAt_Cons_Suc: "takeAt (Suc i) (x # xs) = x # takeAt i xs"
  by (simp add: takeAt_def)

lemma takeAt_Cons_0: "takeAt 0 (x # xs) = xs"
  by (simp add: takeAt_def)

lemma takeAt_remove1: "distinct xs \<Longrightarrow> i < length xs \<Longrightarrow> takeAt i xs = remove1 (xs ! i) xs"
proof (induction xs arbitrary: i)
  case Nil
  then show ?case by simp
next
  case (Cons x xs)
  show ?case
  proof (cases i)
    case 0
    then show ?thesis by (simp add: takeAt_Cons_0)
  next
    case (Suc j)
    with Cons.prems have "xs ! j \<noteq> x" by auto
    with Suc Cons show ?thesis by (simp add: takeAt_Cons_Suc)
  qed
qed

lemma distinct_takeAt: "distinct xs \<Longrightarrow> distinct (takeAt i xs)"
proof -
  assume d: "distinct xs"
  have "distinct (take i xs @ drop i xs)" using d by simp
  then have "distinct (take i xs)" and "distinct (drop i xs)"
    and dj: "set (take i xs) \<inter> set (drop i xs) = {}"
    by (simp_all only: distinct_append) 
  moreover have "set (drop (Suc i) xs) \<subseteq> set (drop i xs)"
    by (rule set_drop_subset_set_drop) simp
  moreover have "distinct (drop (Suc i) xs)" using d by simp
  ultimately show ?thesis unfolding takeAt_def by auto
qed

lemma indexOf_Some: "indexOf a xs = Some i \<Longrightarrow> i < length xs \<and> xs ! i = a"
  by (induction xs arbitrary: i) (auto split: if_splits)

lemma indexOf_None: "indexOf a xs = None \<longleftrightarrow> a \<notin> set xs"
  by (induction xs) auto

lemma indexOf_takeAt: "indexOf a xs = Some i \<Longrightarrow> takeAt i xs = remove1 a xs"
  by (induction xs arbitrary: i) (auto split: if_splits simp: takeAt_Cons_0 takeAt_Cons_Suc)

subsection \<open>setIds\<close>

lemma setIds_other: "q \<notin> set ps \<Longrightarrow> setIds i ps h q = h q"
  by (induction ps arbitrary: i h) auto

lemma setIds_pid: "distinct ps \<Longrightarrow> j < length ps \<Longrightarrow> pid (setIds i ps h (ps ! j)) = int (i + j)"
proof (induction ps arbitrary: i h j)
  case Nil
  then show ?case by simp
next
  case (Cons p ps)
  show ?case
  proof (cases j)
    case 0
    with Cons.prems show ?thesis by (simp add: setIds_other)
  next
    case (Suc k)
    with Cons.prems Cons.IH[of k "Suc i"] show ?thesis by simp
  qed
qed

lemma setIds_map_pid: "distinct ps \<Longrightarrow> map (\<lambda>p. pid (setIds i ps h p)) ps = map int [i ..< i + length ps]"
  by (rule nth_equalityI) (simp_all add: setIds_pid)

lemma setIds_fields:
  "position (setIds i ps h q) = position (h q) \<and> alive (setIds i ps h q) = alive (h q) \<and>
   networkClient (setIds i ps h q) = networkClient (h q) \<and> wins (setIds i ps h q) = wins (h q) \<and>
   command (setIds i ps h q) = command (h q) \<and> pname (setIds i ps h q) = pname (h q)"
  by (induction ps arbitrary: i h) auto

subsection \<open>The shuffle\<close>

lemma length_qSwap: "length (qSwap i j xs) = length xs"
  by (simp add: qSwap_def)

lemma mset_qSwap: "i < length xs \<Longrightarrow> j < length xs \<Longrightarrow> mset (qSwap i j xs) = mset xs"
  unfolding qSwap_def by (simp add: mset_swap)

lemma shuffle_length: "length (fst (shuffle rnd k ps g)) = length ps"
  by (induction k arbitrary: ps g) (auto simp: length_qSwap split: prod.splits)

lemma shuffle_mset: "k < length ps \<Longrightarrow> mset (fst (shuffle rnd k ps g)) = mset ps"
proof (induction k arbitrary: ps g)
  case 0
  then show ?case by simp
next
  case (Suc k)
  obtain r g' where rg: "rnd g = (r, g')" by (cases "rnd g")
  have "r mod (Suc k + 1) < Suc k + 1" by simp
  with Suc.prems have j: "r mod (Suc k + 1) < length ps" by linarith
  have "mset (fst (shuffle rnd k (qSwap (Suc k) (r mod (Suc k + 1)) ps) g')) =
        mset (qSwap (Suc k) (r mod (Suc k + 1)) ps)"
    using Suc.prems by (intro Suc.IH) (simp add: length_qSwap)
  also have "\<dots> = mset ps" using Suc.prems j by (simp add: mset_qSwap)
  finally show ?case using rg by simp
qed

lemma shuffle_roster_mset:
  "mset (fst (shuffle rnd (length ps - 1) ps g)) = mset ps"
proof (cases ps)
  case Nil
  then show ?thesis by simp
next
  case (Cons a list)
  then show ?thesis by (intro shuffle_mset) simp
qed

subsection \<open>The loop over the commands\<close>

lemma processPlayer_fields:
  "alive (fst (processPlayer e pl p hm) q) = alive (fst hm q) \<and>
   networkClient (fst (processPlayer e pl p hm) q) = networkClient (fst hm q) \<and>
   command (fst (processPlayer e pl p hm) q) = command (fst hm q) \<and>
   wins (fst (processPlayer e pl p hm) q) = wins (fst hm q) \<and>
   pid (fst (processPlayer e pl p hm) q) = pid (fst hm q)"
  by (cases hm) (simp add: processPlayer_def split: option.splits)

lemma processLoop_fields:
  "alive (fst (processLoop e pl ps hm) q) = alive (fst hm q) \<and>
   networkClient (fst (processLoop e pl ps hm) q) = networkClient (fst hm q) \<and>
   command (fst (processLoop e pl ps hm) q) = command (fst hm q) \<and>
   wins (fst (processLoop e pl ps hm) q) = wins (fst hm q) \<and>
   pid (fst (processLoop e pl ps hm) q) = pid (fst hm q)"
  by (induction ps arbitrary: hm) (simp_all add: processPlayer_fields)

lemma processLoop_append:
  "processLoop e pl (xs @ ys) hm = processLoop e pl ys (processLoop e pl xs hm)"
  by (induction xs arbitrary: hm) simp_all

subsection \<open>The state after the commands\<close>

lemma resolved_players: "mset (fst (resolved e s)) = mset (m_players s)"
proof -
  obtain players g where
    sh: "shuffle (qrand e) (length (m_players s) - 1) (m_players s) (rng s) = (players, g)"
    by (cases "shuffle (qrand e) (length (m_players s) - 1) (m_players s) (rng s)")
  have "fst (resolved e s) = players"
    using sh by (simp add: resolved_def split: prod.splits)
  moreover have "mset players = mset (m_players s)"
    using shuffle_roster_mset[of "qrand e" "m_players s" "rng s"] sh by simp
  ultimately show ?thesis by simp
qed

lemma resolved_state:
  "m_players (snd (resolved e s)) = m_players s \<and> trace (snd (resolved e s)) = trace s \<and>
   timerActive (snd (resolved e s)) = timerActive s \<and>
   m_roundsPlayed (snd (resolved e s)) = m_roundsPlayed s"
  by (simp add: resolved_def split: prod.splits)

lemma resolved_fields:
  "alive (heap (snd (resolved e s)) q) = alive (heap s q) \<and>
   networkClient (heap (snd (resolved e s)) q) = networkClient (heap s q) \<and>
   command (heap (snd (resolved e s)) q) = command (heap s q) \<and>
   wins (heap (snd (resolved e s)) q) = wins (heap s q) \<and>
   pid (heap (snd (resolved e s)) q) = pid (heap s q)"
proof -
  obtain players g where sh: "shuffle (qrand e) (length (m_players s) - 1) (m_players s) (rng s) = (players, g)"
    by (cases "shuffle (qrand e) (length (m_players s) - 1) (m_players s) (rng s)")
  obtain h m where pl: "processLoop e players players (heap s, m_map s) = (h, m)"
    by (cases "processLoop e players players (heap s, m_map s)")
  have "heap (snd (resolved e s)) = fst (processLoop e players players (heap s, m_map s))"
    using sh pl by (simp add: resolved_def)
  then show ?thesis using processLoop_fields[of e players players "(heap s, m_map s)" q] by simp
qed

subsection \<open>Counting the dead\<close>

lemma countDead_filter: "countDead h ps = int (length (filter (\<lambda>p. \<not> alive (h p)) ps))"
  by (induction ps) simp_all

lemma length_filter_mset:
  assumes "mset xs = mset ys"
  shows "length (filter P xs) = length (filter P ys)"
proof -
  have "mset (filter P xs) = mset (filter P ys)" using assms by simp
  then show ?thesis by (rule mset_eq_length)
qed

lemma countDead_mset: "mset xs = mset ys \<Longrightarrow> countDead h xs = countDead h ys"
  unfolding countDead_filter by (simp only: length_filter_mset[of xs ys])

lemma length_alive_dead:
  "length (filter (\<lambda>p. alive (h p)) ps) + length (filter (\<lambda>p. \<not> alive (h p)) ps) = length ps"
  by (induction ps) simp_all

subsection \<open>endRound\<close>

lemma awardWin_fields:
  "alive (awardWin ps h q) = alive (h q) \<and> networkClient (awardWin ps h q) = networkClient (h q) \<and>
   pid (awardWin ps h q) = pid (h q) \<and> position (awardWin ps h q) = position (h q)"
  by (induction ps) simp_all

lemma endRound_roster: "m_players (endRound s) = m_players s"
  by (simp add: endRound_def emit_def Let_def)

lemma endRound_timer: "\<not> timerActive (endRound s)"
  by (simp add: endRound_def emit_def Let_def)

lemma endRound_alive: "alive (heap (endRound s) q) = alive (heap s q)"
  by (simp add: endRound_def emit_def Let_def awardWin_fields)

lemma endRound_trace:
  "trace (endRound s) =
     trace s @ map SendEndOfRound (filter (hasClient (heap s)) (m_players s)) @
     [if m_roundsPlayed s < 5 then StartRoundScheduled else EndScreenShown]"
  by (simp add: endRound_def emit_def Let_def)

subsection \<open>gameTick\<close>

lemma tick_condition:
  "(let dead = countDead (heap (snd (resolved e s))) (fst (resolved e s))
    in dead > 0 \<and> int (length (fst (resolved e s))) - dead < 2) \<longleftrightarrow> roundEnds s"
proof -
  let ?pl = "fst (resolved e s)" and ?h = "heap (snd (resolved e s))"
  have m: "mset ?pl = mset (m_players s)" by (rule resolved_players)
  have hh: "(\<lambda>p. \<not> alive (?h p)) = (\<lambda>p. \<not> alive (heap s p))"
    by (simp add: resolved_fields)
  have d: "countDead ?h ?pl = int (length (deadIn (heap s) (m_players s)))"
    using countDead_mset[OF m, of ?h] by (simp add: countDead_filter deadIn_def hh)
  have l: "length ?pl = length (m_players s)" using m by (rule mset_eq_length)
  have a: "length (aliveIn (heap s) (m_players s)) + length (deadIn (heap s) (m_players s)) = length (m_players s)"
    by (simp add: aliveIn_def deadIn_def length_alive_dead)
  have "(0 < int (length (deadIn (heap s) (m_players s)))) = (deadIn (heap s) (m_players s) \<noteq> [])"
    by simp
  moreover have "(int (length (m_players s)) - int (length (deadIn (heap s) (m_players s))) < 2) =
                 (length (aliveIn (heap s) (m_players s)) < 2)"
    using a by linarith
  ultimately show ?thesis unfolding Let_def d l roundEnds_def by (simp only:)
qed

lemma gameTick_cases:
  "gameTick e s =
     (if roundEnds s then endRound (emit [GameOver] (snd (resolved e s)))
      else emit (sendStates (heap (snd (resolved e s))) (aliveIn (heap s) (m_players s)))
             (snd (resolved e s)))"
proof -
  obtain pl s1 where r: "resolved e s = (pl, s1)" by (cases "resolved e s")
  have f: "filter (\<lambda>p. alive (heap s1 p)) (m_players s1) = aliveIn (heap s) (m_players s)"
    using resolved_fields[of e s] resolved_state[of e s] r by (simp add: aliveIn_def)
  have c: "(0 < countDead (heap s1) pl \<and> int (length pl) - countDead (heap s1) pl < 2) = roundEnds s"
    using tick_condition[of e s] r by (simp add: Let_def)
  show ?thesis
    unfolding gameTick_def r by (simp add: Let_def c f)
qed

lemma gameTick_roster: "m_players (gameTick e s) = m_players s"
  by (simp add: gameTick_cases endRound_roster emit_def resolved_state)

lemma gameTick_alive: "alive (heap (gameTick e s) q) = alive (heap s q)"
  by (simp add: gameTick_cases endRound_alive emit_def resolved_fields)

lemma gameTick_networkClient: "networkClient (heap (gameTick e s) q) = networkClient (heap s q)"
  by (simp add: gameTick_cases endRound_def Let_def emit_def resolved_fields awardWin_fields)

lemma hasClient_resolved: "hasClient (heap (snd (resolved e s))) = hasClient (heap s)"
  by (rule ext) (simp add: hasClient_def resolved_fields)

lemma sendStates_cong:
  "(\<And>q. networkClient (h q) = networkClient (h' q)) \<Longrightarrow> sendStates h ps = sendStates h' ps"
  by (simp add: sendStates_def)

lemma tickEvents_cases:
  "tickEvents e s =
     (if roundEnds s
      then GameOver # map SendEndOfRound (filter (hasClient (heap s)) (m_players s)) @
           [if m_roundsPlayed s < 5 then StartRoundScheduled else EndScreenShown]
      else sendStates (heap s) (aliveIn (heap s) (m_players s)))"
proof -
  have "sendStates (heap (snd (resolved e s))) (aliveIn (heap s) (m_players s)) =
        sendStates (heap s) (aliveIn (heap s) (m_players s))"
    by (rule sendStates_cong) (simp add: resolved_fields)
  then show ?thesis
    by (simp add: tickEvents_def gameTick_cases endRound_trace emit_def resolved_state
        hasClient_resolved)
qed

lemma GameOver_notin_sendStates: "GameOver \<notin> set (sendStates h ps)"
  by (auto simp: sendStates_def)

lemma tickEvents_GameOver: "GameOver \<in> set (tickEvents e s) \<longleftrightarrow> roundEnds s"
  by (simp add: tickEvents_cases GameOver_notin_sendStates)

lemma diedBetween_gameTick: "diedBetween s (gameTick e s) = []"
  by (simp add: diedBetween_def gameTick_alive)

subsection \<open>C1: when the round-over signal is emitted\<close>

text \<open>
  C1, as the code has it. A tick emits \<open>gameOver\<close> if and only if, at the count after the
  commands, some player of the roster is dead and fewer than two are alive. The count looks
  at the \<open>alive\<close> flags as they stand, whenever the players died: no player dies inside
  \<open>gameTick\<close> itself (deaths come from \<open>explosionAt\<close>, between ticks). In particular a
  roster without a dead player never ends the round, even with one player or none.
\<close>

theorem round_over_iff_some_dead_and_fewer_than_two_alive:
  "(GameOver \<in> set (tickEvents e s)) =
     (deadIn (heap (gameTick e s)) (m_players s) \<noteq> [] \<and>
      length (aliveIn (heap (gameTick e s)) (m_players s)) < 2) \<and>
   diedBetween s (gameTick e s) = []"
proof -
  have "deadIn (heap (gameTick e s)) (m_players s) = deadIn (heap s) (m_players s)"
    and "aliveIn (heap (gameTick e s)) (m_players s) = aliveIn (heap s) (m_players s)"
    by (simp_all add: deadIn_def aliveIn_def gameTick_alive)
  then show ?thesis
    using tickEvents_GameOver[of e s] diedBetween_gameTick[of s e]
    by (simp add: roundEnds_def)
qed

lemma startRound_twoBots: "startRound demoEnv twoBots = Inr duelStarted"
  by (simp add: example_defs operation_defs Let_def)

lemma oneDown_facts:
  "m_players oneDown = [0, 1] \<and> alive (heap oneDown 0) \<and> \<not> alive (heap oneDown 1)"
  by (simp add: example_defs operation_defs Let_def)

lemma resumed_facts:
  "m_players resumed = [0, 1] \<and> alive (heap resumed 0) \<and> \<not> alive (heap resumed 1)"
  using oneDown_facts
  by (simp add: resumed_def togglePause_def gameTick_roster gameTick_alive)

text \<open>
  C1 as it is worded fails: the claim ties the signal to a death that occurred during the
  tick. In \<open>resumed\<close> the second player died before the previous tick, that tick ended the
  round, and the pause toggle started the timer again. Between the state before the previous
  tick and the end of this tick nobody died, one player entered the tick alive, and the
  tick emits \<open>gameOver\<close> again.
\<close>

theorem round_over_on_tick_without_death:
  "GameOver \<in> set (tickEvents demoEnv resumed) \<and>
   diedBetween oneDown (gameTick demoEnv resumed) = [] \<and>
   aliveIn (heap resumed) (m_players resumed) = [0] \<and>
   GameOver \<in> set (tickEvents demoEnv oneDown)"
proof -
  have "roundEnds resumed" and "roundEnds oneDown"
    using resumed_facts oneDown_facts by (simp_all add: roundEnds_def deadIn_def aliveIn_def)
  then have "GameOver \<in> set (tickEvents demoEnv resumed)" "GameOver \<in> set (tickEvents demoEnv oneDown)"
    by (simp_all add: tickEvents_GameOver)
  moreover have "diedBetween oneDown (gameTick demoEnv resumed) = []"
    using resumed_facts oneDown_facts by (simp add: diedBetween_def gameTick_alive)
  moreover have "aliveIn (heap resumed) (m_players resumed) = [0]"
    using resumed_facts by (simp add: aliveIn_def)
  ultimately show ?thesis by simp
qed

text \<open>The property at two ticks: one with a dead player, one with both alive.\<close>

theorem round_over_iff_witness:
  "GameOver \<in> set (tickEvents demoEnv oneDown) \<and> GameOver \<notin> set (tickEvents demoEnv duelStarted)"
proof -
  have "m_players duelStarted = [0, 1] \<and> alive (heap duelStarted 0) \<and> alive (heap duelStarted 1)"
    by (simp add: example_defs operation_defs Let_def)
  then show ?thesis
    using round_over_iff_some_dead_and_fewer_than_two_alive[of demoEnv oneDown]
      round_over_iff_some_dead_and_fewer_than_two_alive[of demoEnv duelStarted] oneDown_facts
    by (simp add: deadIn_def aliveIn_def gameTick_alive)
qed

subsection \<open>Snapshots\<close>

lemma concat_map_if_singleton:
  "concat (map (\<lambda>x. if P x then [] else [f x]) xs) = map f (filter (\<lambda>x. \<not> P x) xs)"
  by (induction xs) simp_all

lemma remove1_filter_distinct: "distinct xs \<Longrightarrow> remove1 x xs = filter (\<lambda>q. q \<noteq> x) xs"
proof -
  assume "distinct xs"
  then have "remove1 x xs = removeAll x xs" by (rule distinct_remove1_removeAll)
  also have "\<dots> = filter (\<lambda>q. x \<noteq> q) xs" by (simp add: removeAll_filter_not_eq)
  also have "\<dots> = filter (\<lambda>q. q \<noteq> x) xs" by (rule filter_cong) auto
  finally show ?thesis .
qed

lemma sendStates_distinct:
  assumes "distinct ps"
  shows "sendStates h ps =
           map (\<lambda>p. SendState p (filter (\<lambda>q. q \<noteq> p) ps)) (filter (hasClient h) ps)"
proof -
  let ?g = "\<lambda>p. if networkClient (h p) = None then []
                 else [SendState p (filter (\<lambda>q. q \<noteq> p) ps)]"
  have "map (\<lambda>i. if networkClient (h (ps ! i)) = None then []
                  else [SendState (ps ! i) (takeAt i ps)]) [0 ..< length ps] =
        map (\<lambda>i. ?g (ps ! i)) [0 ..< length ps]"
    using assms by (simp add: takeAt_remove1 remove1_filter_distinct)
  also have "\<dots> = map ?g (map (\<lambda>i. ps ! i) [0 ..< length ps])" by simp
  also have "\<dots> = map ?g ps" by (simp only: map_nth)
  finally have "sendStates h ps = concat (map ?g ps)" by (simp add: sendStates_def)
  also have "\<dots> = map (\<lambda>p. SendState p (filter (\<lambda>q. q \<noteq> p) ps))
                      (filter (\<lambda>p. \<not> networkClient (h p) = None) ps)"
    by (rule concat_map_if_singleton)
  finally show ?thesis by (simp add: hasClient_def[abs_def])
qed

lemma clientDisconnected_active: "timerActive s \<Longrightarrow> clientDisconnected sender s = s"
  by (simp add: clientDisconnected_def)

subsection \<open>C4: the snapshots of a tick\<close>

text \<open>
  C4, as the code has it. On a tick that does not end the round (no \<open>gameOver\<close>), the
  events of the tick are exactly one \<open>sendState\<close> for each player of the roster that is
  alive and has a channel, in roster order, and the list sent to a player \<open>p\<close> is the list
  of the alive players of the roster without \<open>p\<close>. So no player receives itself, nobody
  outside the roster is listed, and a dead player or one without a channel receives
  nothing. A disconnect that arrives while the timer runs changes none of this: the
  snapshots of the next tick are the same as without it. The roster holds each player once.
\<close>

theorem snapshot_to_each_alive_network_player_without_itself:
  assumes "distinct (m_players s)" and "GameOver \<notin> set (tickEvents e s)"
  shows "tickEvents e s =
           map (\<lambda>p. SendState p (filter (\<lambda>q. q \<noteq> p) (aliveIn (heap (gameTick e s)) (m_players s))))
               (filter (hasClient (heap (gameTick e s))) (aliveIn (heap (gameTick e s)) (m_players s))) \<and>
         (timerActive s \<longrightarrow> tickEvents e (clientDisconnected sender s) = tickEvents e s)"
proof -
  have a: "aliveIn (heap (gameTick e s)) (m_players s) = aliveIn (heap s) (m_players s)"
    by (simp add: aliveIn_def gameTick_alive)
  have c: "hasClient (heap (gameTick e s)) = hasClient (heap s)"
    by (rule ext) (simp add: hasClient_def gameTick_networkClient)
  have "\<not> roundEnds s" using assms(2) by (simp add: tickEvents_GameOver)
  then have "tickEvents e s = sendStates (heap s) (aliveIn (heap s) (m_players s))"
    by (simp add: tickEvents_cases)
  moreover have "distinct (aliveIn (heap s) (m_players s))"
    using assms(1) by (simp add: aliveIn_def)
  ultimately show ?thesis by (simp add: sendStates_distinct a c clientDisconnected_active)
qed

lemma threeUp_facts:
  "m_players threeUp = [0, 1, 2] \<and> alive (heap threeUp 0) \<and> \<not> alive (heap threeUp 1) \<and>
   alive (heap threeUp 2) \<and> networkClient (heap threeUp 0) = None \<and>
   networkClient (heap threeUp 1) \<noteq> None \<and> networkClient (heap threeUp 2) \<noteq> None"
  by (simp add: example_defs operation_defs Let_def)

text \<open>
  The property on a roster of a local player, a dead network player and an alive network
  player: the only snapshot goes to the last one and lists the local player.
\<close>

theorem snapshot_witness:
  "distinct (m_players threeUp) \<and> GameOver \<notin> set (tickEvents demoEnv threeUp) \<and>
   tickEvents demoEnv threeUp = [SendState 2 [0]]"
proof -
  have d: "distinct (m_players threeUp)" using threeUp_facts by simp
  have g: "GameOver \<notin> set (tickEvents demoEnv threeUp)"
    using threeUp_facts by (simp add: tickEvents_GameOver roundEnds_def deadIn_def aliveIn_def)
  show ?thesis
    using snapshot_to_each_alive_network_player_without_itself[OF d g, of None] d g threeUp_facts
    by (simp add: aliveIn_def hasClient_def gameTick_alive gameTick_networkClient)
qed

lemma duelStarted_players:
  "m_players duelStarted = [0, 1] \<and> timerActive duelStarted \<and>
   alive (heap duelStarted 0) \<and> alive (heap duelStarted 1) \<and>
   networkClient (heap duelStarted 0) \<noteq> None \<and> networkClient (heap duelStarted 1) \<noteq> None"
  by (simp add: example_defs operation_defs Let_def)

text \<open>
  C4 as it is worded fails: the claim has no snapshot sent to a disconnected player. The
  second player disconnects while the round runs; it stays in the roster with its channel,
  and the next tick sends it a snapshot and lists it in the snapshot of the first player.
\<close>

theorem snapshot_sent_to_player_that_disconnected:
  "timerActive duelStarted \<and> m_players dropped = [0, 1] \<and>
   tickEvents demoEnv dropped = [SendState 0 [1], SendState 1 [0]]"
proof -
  have d: "dropped = duelStarted"
    using duelStarted_players by (simp add: dropped_def clientDisconnected_active)
  have "\<not> roundEnds duelStarted"
    using duelStarted_players by (simp add: roundEnds_def deadIn_def)
  then have "tickEvents demoEnv duelStarted =
             sendStates (heap duelStarted) (aliveIn (heap duelStarted) (m_players duelStarted))"
    by (simp add: tickEvents_cases)
  also have "\<dots> = [SendState 0 [1], SendState 1 [0]]"
    using duelStarted_players by (auto simp: aliveIn_def sendStates_def takeAt_def)
  finally show ?thesis using duelStarted_players by (simp add: d)
qed

subsection \<open>Moves\<close>

lemma canWalk_iff:
  "canWalk players h m pos \<longleftrightarrow>
     isValidPosition m pos \<and> \<not> (\<exists>q \<in> set players. alive (h q) \<and> position (h q) = pos) \<and>
     \<not> (\<exists>b \<in> set (bombs m). bombPosition b = pos)"
  by (simp add: canWalk_def playerAt_def bombAt_def list_ex_iff)

lemma targetOf_directions:
  "targetOf ''UP'' (x, y) = Some (x, y - 1)"
  "targetOf ''DOWN'' (x, y) = Some (x, y + 1)"
  "targetOf ''LEFT'' (x, y) = Some (x - 1, y)"
  "targetOf ''RIGHT'' (x, y) = Some (x + 1, y)"
  by (simp_all add: targetOf_def)

lemma targetOf_wraps:
  "map_option (\<lambda>pos. (sint (fst pos), sint (snd pos))) (targetOf ''RIGHT'' (2147483647, 0)) =
     Some (- 2147483648, 0)"
  "map_option (\<lambda>pos. (sint (fst pos), sint (snd pos))) (targetOf ''UP'' (0, - 2147483648)) =
     Some (0, 2147483647)"
  by (simp_all add: targetOf_def)

lemma processPlayer_direction:
  assumes "(command (h p), d) \<in>
             {(''UP'', (0, -1)), (''DOWN'', (0, 1)), (''LEFT'', (-1, 0)), (''RIGHT'', (1, 0))}"
  shows "processPlayer e players p (h, m) =
           (let target = (fst (position (h p)) + fst d, snd (position (h p)) + snd d)
            in if \<not> isValidPosition m target \<or>
                  (\<exists>q \<in> set players. alive (h q) \<and> position (h q) = target) \<or>
                  (\<exists>b \<in> set (bombs m). bombPosition b = target)
               then (h, m)
               else (h(p := (h p)\<lparr>position := target\<rparr>), m))"
proof -
  obtain x y where pos: "position (h p) = (x, y)" by (cases "position (h p)")
  from assms consider
      "command (h p) = ''UP''" "d = (0, -1)"
    | "command (h p) = ''DOWN''" "d = (0, 1)"
    | "command (h p) = ''LEFT''" "d = (-1, 0)"
    | "command (h p) = ''RIGHT''" "d = (1, 0)"
    by auto
  then show ?thesis
  proof cases
    case 1
    then show ?thesis
      by (auto simp: processPlayer_def pos targetOf_directions canWalk_iff Let_def)
  next
    case 2
    then show ?thesis
      by (auto simp: processPlayer_def pos targetOf_directions canWalk_iff Let_def)
  next
    case 3
    then show ?thesis
      by (auto simp: processPlayer_def pos targetOf_directions canWalk_iff Let_def)
  next
    case 4
    then show ?thesis
      by (auto simp: processPlayer_def pos targetOf_directions canWalk_iff Let_def)
  qed
qed

lemma resolved_loop:
  "(heap (snd (resolved e s)), m_map (snd (resolved e s))) =
     processLoop e (fst (resolved e s)) (fst (resolved e s)) (heap s, m_map s)"
  by (simp add: resolved_def split: prod.splits)

lemma gameTick_position:
  "position (heap (gameTick e s) q) = position (heap (snd (resolved e s)) q)"
  by (simp add: gameTick_cases endRound_def Let_def emit_def awardWin_fields)

lemma gameTick_map: "m_map (gameTick e s) = m_map (snd (resolved e s))"
  by (simp add: gameTick_cases endRound_def Let_def emit_def)

subsection \<open>C5: directional commands\<close>

text \<open>
  C5. In the tick from the state \<open>s\<close>, let \<open>p\<close> stand in the shuffled list after the
  players \<open>earlier\<close> and before the players \<open>later\<close>, let \<open>(h, m)\<close> be the players and the
  map when it is the turn of \<open>p\<close>, that is after the commands of \<open>earlier\<close>, and let the
  pending command of \<open>p\<close> be a direction: UP is \<open>y - 1\<close>, DOWN is \<open>y + 1\<close>, LEFT is
  \<open>x - 1\<close> and RIGHT is \<open>x + 1\<close>, in the 32-bit arithmetic of \<open>QPoint\<close>. The move is
  rejected, leaving everything as it was, exactly when the target is not walkable, or an
  alive player of the shuffled list stands on it in \<open>h\<close> (moves committed earlier in the
  tick included), or a bomb of \<open>m\<close> lies on it; otherwise the target becomes the position of
  \<open>p\<close> and nothing else changes. The tick goes on from there with the players \<open>later\<close>,
  and what they leave are the positions and the map after \<open>gameTick\<close>.
\<close>

theorem directional_move_commits_or_rejects:
  assumes order: "fst (resolved e s) = earlier @ p # later"
    and turn: "processLoop e (fst (resolved e s)) earlier (heap s, m_map s) = (h, m)"
    and cmd: "(command (h p), d) \<in>
                {(''UP'', (0, -1)), (''DOWN'', (0, 1)), (''LEFT'', (-1, 0)), (''RIGHT'', (1, 0))}"
  shows "let players = fst (resolved e s);
             target = (fst (position (h p)) + fst d, snd (position (h p)) + snd d);
             moved = (if \<not> isValidPosition m target \<or>
                         (\<exists>q \<in> set players. alive (h q) \<and> position (h q) = target) \<or>
                         (\<exists>b \<in> set (bombs m). bombPosition b = target)
                      then (h, m)
                      else (h(p := (h p)\<lparr>position := target\<rparr>), m))
         in processLoop e players (earlier @ [p]) (heap s, m_map s) = moved \<and>
            (heap (snd (resolved e s)), m_map (snd (resolved e s))) =
              processLoop e players later moved \<and>
            (\<forall>q. position (heap (gameTick e s) q) = position (heap (snd (resolved e s)) q)) \<and>
            m_map (gameTick e s) = m_map (snd (resolved e s))"
proof -
  let ?players = "fst (resolved e s)"
  let ?target = "(fst (position (h p)) + fst d, snd (position (h p)) + snd d)"
  let ?moved = "if \<not> isValidPosition m ?target \<or>
                   (\<exists>q \<in> set ?players. alive (h q) \<and> position (h q) = ?target) \<or>
                   (\<exists>b \<in> set (bombs m). bombPosition b = ?target)
                then (h, m)
                else (h(p := (h p)\<lparr>position := ?target\<rparr>), m)"
  have step: "processPlayer e ?players p (h, m) = ?moved"
    using cmd processPlayer_direction[where h = h and p = p and d = d and e = e
        and players = ?players and m = m]
    by (simp add: Let_def)
  have one: "processLoop e ?players (earlier @ [p]) (heap s, m_map s) = ?moved"
    using turn step by (simp add: processLoop_append)
  have "processLoop e ?players ?players (heap s, m_map s) =
        processLoop e ?players later (processLoop e ?players (earlier @ [p]) (heap s, m_map s))"
    by (subst (2) order) (simp add: processLoop_append)
  then have all: "(heap (snd (resolved e s)), m_map (snd (resolved e s))) =
        processLoop e ?players later ?moved"
    using one resolved_loop[of e s] by simp
  show ?thesis
    unfolding Let_def using one all gameTick_position[of e s] gameTick_map[of e s] by blast
qed

lemma faceOff_facts:
  "m_players faceOff = [0, 1] \<and> rng faceOff = 1 \<and>
   heap faceOff 0 = \<lparr>pid = 0, pname = ''a'', position = (1, 1), alive = True, command = ''DOWN'',
      wins = 0, networkClient = Some \<lparr>remoteName = ''a'', nameChangeConnected = False\<rparr>\<rparr> \<and>
   heap faceOff 1 = \<lparr>pid = 1, pname = ''b'', position = (1, 3), alive = True, command = ''UP'',
      wins = 0, networkClient = Some \<lparr>remoteName = ''b'', nameChangeConnected = False\<rparr>\<rparr> \<and>
   m_map faceOff = arena"
  by (simp add: example_defs operation_defs Let_def)

lemma faceOff_order:
  "fst (resolved demoEnv faceOff) = [0, 1]" "fst (resolved demoEnv faceOffOther) = [1, 0]"
  using faceOff_facts
  by (simp_all add: resolved_def faceOffOther_def demoEnv_def qSwap_def split: prod.splits)

text \<open>
  The property on the two players that walk towards the same cell, in both orders of the
  shuffle: whoever is processed first gets the cell, the other stays where it was.
\<close>

theorem directional_move_witness:
  "position (heap (gameTick demoEnv faceOff) 0) = (1, 2) \<and>
   position (heap (gameTick demoEnv faceOff) 1) = (1, 3) \<and>
   position (heap (gameTick demoEnv faceOffOther) 0) = (1, 1) \<and>
   position (heap (gameTick demoEnv faceOffOther) 1) = (1, 2)"
proof -
  let ?h0 = "(heap faceOff)(0 := (heap faceOff 0)\<lparr>position := (1, 2)\<rparr>)"
  let ?h1 = "(heap faceOff)(1 := (heap faceOff 1)\<lparr>position := (1, 2)\<rparr>)"
  have f: "heap faceOffOther = heap faceOff" "m_map faceOffOther = m_map faceOff"
    by (simp_all add: faceOffOther_def)
  have order0: "fst (resolved demoEnv faceOff) = [0] @ 1 # []"
    and order1: "fst (resolved demoEnv faceOffOther) = [1] @ 0 # []"
    by (simp_all add: faceOff_order)
  have turn0: "processLoop demoEnv (fst (resolved demoEnv faceOff)) [0]
                 (heap faceOff, m_map faceOff) = (?h0, arena)"
    using faceOff_facts
    by (simp add: faceOff_order processPlayer_def targetOf_def canWalk_def playerAt_def bombAt_def
        arena_def)
  have turn1: "processLoop demoEnv (fst (resolved demoEnv faceOffOther)) [1]
                 (heap faceOffOther, m_map faceOffOther) = (?h1, arena)"
    using faceOff_facts
    by (simp add: f faceOff_order processPlayer_def targetOf_def canWalk_def playerAt_def
        bombAt_def arena_def)
  have up: "(command (?h0 1), (0, -1)) \<in>
      {(''UP'', (0, -1)), (''DOWN'', (0, 1)), (''LEFT'', (-1, 0)), (''RIGHT'', (1 :: 32 word, 0 :: 32 word))}"
    using faceOff_facts by simp
  have down: "(command (?h1 0), (0, 1)) \<in>
      {(''UP'', (0, -1)), (''DOWN'', (0, 1)), (''LEFT'', (-1, 0)), (''RIGHT'', (1 :: 32 word, 0 :: 32 word))}"
    using faceOff_facts by simp
  show ?thesis
    using directional_move_commits_or_rejects[where e = demoEnv and s = faceOff
        and earlier = "[0]" and p = 1 and later = "[]" and h = ?h0 and m = arena
        and d = "(0, -1)", OF order0 turn0 up]
      directional_move_commits_or_rejects[where e = demoEnv and s = faceOffOther
        and earlier = "[1]" and p = 0 and later = "[]" and h = ?h1 and m = arena
        and d = "(0, 1)", OF order1 turn1 down]
      faceOff_facts
    by (simp add: arena_def Let_def faceOff_order f)
qed

subsection \<open>The shuffle and the specification's Fisher-Yates\<close>

lemma fisherYatesSpec_cong:
  "(\<And>i. 1 \<le> i \<Longrightarrow> i \<le> k \<Longrightarrow> c i = c' i) \<Longrightarrow> fisherYatesSpec c k xs = fisherYatesSpec c' k xs"
  by (induction k arbitrary: xs) simp_all

lemma chosen_le: "chosen rnd k g i \<le> i"
proof (induction k arbitrary: g)
  case 0
  then show ?case by simp
next
  case (Suc k)
  obtain r g' where rg: "rnd g = (r, g')" by (cases "rnd g")
  have "r mod (Suc k + 1) < Suc k + 1" by simp
  then have "r mod (Suc k + 1) \<le> Suc k" by linarith
  with Suc rg show ?case by simp
qed

lemma shuffle_fisherYatesSpec:
  "fst (shuffle rnd k ps g) = fisherYatesSpec (chosen rnd k g) k ps"
proof (induction k arbitrary: ps g)
  case 0
  then show ?case by simp
next
  case (Suc k)
  obtain r g' where rg: "rnd g = (r, g')" by (cases "rnd g")
  let ?j = "r mod (Suc k + 1)"
  let ?c = "(chosen rnd k g')(Suc k := ?j)"
  have c: "chosen rnd (Suc k) g = ?c" using rg by simp
  have "fst (shuffle rnd (Suc k) ps g) = fst (shuffle rnd k (qSwap (Suc k) ?j ps) g')"
    using rg by simp
  also have "\<dots> = fisherYatesSpec (chosen rnd k g') k (qSwap (Suc k) ?j ps)"
    by (rule Suc.IH)
  also have "\<dots> = fisherYatesSpec ?c k (qSwap (Suc k) ?j ps)"
    by (rule fisherYatesSpec_cong) simp
  also have "\<dots> = fisherYatesSpec ?c k (qSwap (Suc k) (?c (Suc k)) ps)"
    by simp
  also have "\<dots> = fisherYatesSpec ?c (Suc k) ps"
    by (simp only: fisherYatesSpec.simps)
  finally show ?case by (simp only: c)
qed

lemma qSwap_nth_other: "i \<noteq> a \<Longrightarrow> i \<noteq> b \<Longrightarrow> qSwap a b xs ! i = xs ! i"
  by (simp add: qSwap_def)

lemma qSwap_nth_first: "a < length xs \<Longrightarrow> b < length xs \<Longrightarrow> qSwap a b xs ! a = xs ! b"
  by (cases "a = b") (simp_all add: qSwap_def)

lemma shuffle_nth_above:
  "k < i \<Longrightarrow> fst (shuffle rnd k xs g) ! i = xs ! i"
proof (induction k arbitrary: xs g)
  case 0
  then show ?case by simp
next
  case (Suc k)
  obtain r g' where rg: "rnd g = (r, g')" by (cases "rnd g")
  have "r mod (Suc k + 1) < Suc k + 1" by simp
  with Suc.prems have "i \<noteq> r mod (Suc k + 1)" "i \<noteq> Suc k" by linarith+
  then have "qSwap (Suc k) (r mod (Suc k + 1)) xs ! i = xs ! i"
    by (simp add: qSwap_nth_other)
  moreover have "fst (shuffle rnd k (qSwap (Suc k) (r mod (Suc k + 1)) xs) g') ! i =
                 qSwap (Suc k) (r mod (Suc k + 1)) xs ! i"
    using Suc.prems by (intro Suc.IH) simp
  ultimately show ?case using rg by simp
qed

lemma shuffle_last:
  assumes "ps \<noteq> []"
  shows "last (fst (shuffle rnd (length ps - 1) ps g)) = ps ! (fst (rnd g) mod length ps)"
proof (cases "length ps - 1")
  case 0
  with assms have "length ps = 1" by (cases ps) simp_all
  then show ?thesis using 0 assms by (simp add: last_conv_nth)
next
  case (Suc k)
  obtain r g' where rg: "rnd g = (r, g')" by (cases "rnd g")
  have len: "length ps = Suc k + 1" using Suc by simp
  let ?xs = "qSwap (Suc k) (r mod (Suc k + 1)) ps"
  have j: "r mod (Suc k + 1) < length ps" using len by simp
  let ?ys = "fst (shuffle rnd k ?xs g')"
  have ys: "fst (shuffle rnd (Suc k) ps g) = ?ys" using rg by simp
  have ly: "length ?ys = Suc k + 1"
    using len by (simp add: shuffle_length length_qSwap)
  then have "?ys \<noteq> []" by auto
  then have "last ?ys = ?ys ! (length ?ys - 1)" by (rule last_conv_nth)
  also have "\<dots> = ?ys ! Suc k" using ly by simp
  also have "\<dots> = ?xs ! Suc k" by (rule shuffle_nth_above) simp
  also have "\<dots> = ps ! (r mod (Suc k + 1))"
    using j len by (intro qSwap_nth_first) simp_all
  finally have "last (fst (shuffle rnd (Suc k) ps g)) = ps ! (r mod (Suc k + 1))"
    by (simp only: ys)
  then show ?thesis using Suc rg len by simp
qed

subsection \<open>How many draws choose an index\<close>

lemma count_mod:
  "j < k \<Longrightarrow>
     length (filter (\<lambda>r. r mod k = j) [0 ..< n]) = n div k + (if j < n mod k then 1 else 0)"
proof (induction n)
  case 0
  then show ?case by simp
next
  case (Suc n)
  then show ?case by (auto simp: div_Suc mod_Suc)
qed

lemma drawsChoosing_eq:
  "j \<le> index \<Longrightarrow>
     drawsChoosing randMax index j =
       Suc randMax div (index + 1) + (if j < Suc randMax mod (index + 1) then 1 else 0)"
  unfolding drawsChoosing_def by (rule count_mod) simp

lemma drawsChoosing_near_uniform:
  "j \<le> index \<Longrightarrow> j' \<le> index \<Longrightarrow>
     drawsChoosing randMax index j \<le> drawsChoosing randMax index j' + 1"
  by (simp add: drawsChoosing_eq)

subsection \<open>C6: the order of resolution\<close>

text \<open>
  C6, as the code has it. The order in which a tick resolves the commands is the
  specification's Fisher-Yates shuffle of the whole roster, dead players included: over the
  indices \<open>count - 1\<close> down to 1, each swapped with the index \<open>qrand() % (index + 1)\<close>,
  which lies in \<open>[0, index]\<close>; the order is a permutation of the roster. The first draw
  alone decides who is resolved last: the player at the roster index
  \<open>qrand() % count\<close>. Over the values \<open>0 .. RAND_MAX\<close> of \<open>qrand()\<close>, the numbers of
  draws that choose two indices of \<open>[0, index]\<close> differ by at most one: the choice is
  uniform up to the bias of the remainder, not more.
\<close>

theorem resolution_order_is_fisher_yates_of_roster:
  "fst (resolved e s) =
     fisherYatesSpec (chosen (qrand e) (length (m_players s) - 1) (rng s))
       (length (m_players s) - 1) (m_players s) \<and>
   (\<forall>index. chosen (qrand e) (length (m_players s) - 1) (rng s) index \<le> index) \<and>
   mset (fst (resolved e s)) = mset (m_players s) \<and>
   (m_players s \<noteq> [] \<longrightarrow>
      last (fst (resolved e s)) =
        m_players s ! (fst (qrand e (rng s)) mod length (m_players s))) \<and>
   (\<forall>randMax index j j'. j \<le> index \<and> j' \<le> index \<longrightarrow>
      drawsChoosing randMax index j \<le> drawsChoosing randMax index j' + 1)"
proof -
  obtain players g where
    sh: "shuffle (qrand e) (length (m_players s) - 1) (m_players s) (rng s) = (players, g)"
    by (cases "shuffle (qrand e) (length (m_players s) - 1) (m_players s) (rng s)")
  have p: "fst (resolved e s) = players"
    using sh by (simp add: resolved_def split: prod.splits)
  then have fy: "fst (resolved e s) =
     fisherYatesSpec (chosen (qrand e) (length (m_players s) - 1) (rng s))
       (length (m_players s) - 1) (m_players s)"
    using shuffle_fisherYatesSpec[of "qrand e" "length (m_players s) - 1" "m_players s" "rng s"] sh
    by simp
  have la: "m_players s \<noteq> [] \<longrightarrow>
      last (fst (resolved e s)) =
        m_players s ! (fst (qrand e (rng s)) mod length (m_players s))"
    using shuffle_last[of "m_players s" "qrand e" "rng s"] sh p by simp
  have near: "\<forall>randMax index j j'. j \<le> index \<and> j' \<le> index \<longrightarrow>
      drawsChoosing randMax index j \<le> drawsChoosing randMax index j' + 1"
    using drawsChoosing_near_uniform by blast
  have c: "\<forall>index. chosen (qrand e) (length (m_players s) - 1) (rng s) index \<le> index"
    by (simp add: chosen_le)
  have m: "mset (fst (resolved e s)) = mset (m_players s)" by (rule resolved_players)
  show ?thesis by (rule conjI[OF fy conjI[OF c conjI[OF m conjI[OF la near]]]])
qed

text \<open>
  C6 as it is worded fails twice. The order is not a permutation of the alive players: with
  the second player dead, the order still holds both. And the index is not chosen
  uniformly: for \<open>RAND_MAX\<close> = 32767 (and likewise for 2147483647), of the values of
  \<open>qrand()\<close> one more chooses index 0 than index 2 at \<open>index = 2\<close>; in a roster of three
  that draw decides who is resolved last, so the players at the indices 0 and 1 are resolved
  last more often than the player at index 2, even with a perfectly uniform \<open>qrand()\<close>.
\<close>

theorem resolution_order_includes_dead_player_and_choice_is_biased:
  "fst (resolved demoEnv oneDown) = [0, 1] \<and> aliveIn (heap oneDown) (m_players oneDown) = [0] \<and>
   mset (fst (resolved demoEnv oneDown)) \<noteq> mset (aliveIn (heap oneDown) (m_players oneDown)) \<and>
   drawsChoosing 32767 2 0 = 10923 \<and> drawsChoosing 32767 2 2 = 10922 \<and>
   drawsChoosing 2147483647 2 0 = 715827883 \<and> drawsChoosing 2147483647 2 2 = 715827882"
proof -
  have "fst (resolved demoEnv oneDown) = [0, 1] \<and>
        aliveIn (heap oneDown) (m_players oneDown) = [0] \<and>
        mset (fst (resolved demoEnv oneDown)) \<noteq> mset (aliveIn (heap oneDown) (m_players oneDown))"
    by (simp add: example_defs operation_defs Let_def aliveIn_def)
  moreover have "drawsChoosing 32767 2 0 = 10923" "drawsChoosing 32767 2 2 = 10922"
    "drawsChoosing 2147483647 2 0 = 715827883" "drawsChoosing 2147483647 2 2 = 715827882"
    by (simp_all add: drawsChoosing_eq)
  ultimately show ?thesis by blast
qed

text \<open>
  The property on two players with the generator in a state whose draw swaps them, and on
  the draws of \<open>RAND_MAX\<close> = 32767.
\<close>

theorem resolution_order_witness:
  "fst (resolved demoEnv faceOffOther) = [1, 0] \<and>
   mset (fst (resolved demoEnv faceOffOther)) = mset [0, 1] \<and>
   last (fst (resolved demoEnv faceOffOther)) = 0 \<and>
   drawsChoosing 32767 2 0 \<le> drawsChoosing 32767 2 2 + 1"
proof -
  have f: "m_players faceOffOther = [0, 1]" "rng faceOffOther = 0"
    using faceOff_facts by (simp_all add: faceOffOther_def)
  have b: "(0::nat) \<le> 2 \<and> (2::nat) \<le> 2" by simp
  note t = resolution_order_is_fisher_yates_of_roster[of demoEnv faceOffOther]
  have "fst (resolved demoEnv faceOffOther) = [1, 0]"
    using t[THEN conjunct1] by (simp add: f demoEnv_def qSwap_def)
  moreover have "mset (fst (resolved demoEnv faceOffOther)) = mset [0, 1]"
    using t[THEN conjunct2, THEN conjunct2, THEN conjunct1] by (simp add: f)
  moreover have "last (fst (resolved demoEnv faceOffOther)) = 0"
    using t[THEN conjunct2, THEN conjunct2, THEN conjunct2, THEN conjunct1]
    by (simp add: f demoEnv_def)
  moreover have "drawsChoosing 32767 2 0 \<le> drawsChoosing 32767 2 2 + 1"
    using t[THEN conjunct2, THEN conjunct2, THEN conjunct2, THEN conjunct2] b by blast
  ultimately show ?thesis by blast
qed

subsection \<open>Disconnecting\<close>

lemma clientDisconnected_inactive:
  assumes "\<not> timerActive s" and "a \<in> set (m_players s)"
  shows "clientDisconnected (Some a) s =
           exportPlayerList (s\<lparr>m_players := remove1 a (m_players s),
                               heap := setIds 0 (remove1 a (m_players s)) (heap s)\<rparr>)"
proof -
  obtain i where i: "indexOf a (m_players s) = Some i"
    using assms(2) indexOf_None[of a "m_players s"] by (cases "indexOf a (m_players s)") auto
  then show ?thesis
    using assms(1) by (simp add: clientDisconnected_def indexOf_takeAt Let_def)
qed

lemma endRound_pid: "pid (heap (endRound s) q) = pid (heap s q)"
  by (simp add: endRound_def emit_def Let_def awardWin_fields)

subsection \<open>C2: disconnecting\<close>

text \<open>
  C2, as the code has it. For a player \<open>a\<close> of the roster (each player held once): while
  the timer runs, the disconnect leaves the whole state as it was, nothing records it, and
  the end of the round removes nobody and changes no id. When the timer does not run, which
  includes a round that is paused, the player is taken out of the roster at once and the
  ids of the remaining players are \<open>0 .. N - 1\<close> in array order.
\<close>

theorem disconnect_ignored_while_timer_runs_else_removed_and_renumbered:
  assumes "distinct (m_players s)" and "a \<in> set (m_players s)"
  shows "if timerActive s
         then clientDisconnected (Some a) s = s \<and>
              m_players (endRound (clientDisconnected (Some a) s)) = m_players s \<and>
              rosterIds (endRound (clientDisconnected (Some a) s)) = rosterIds s
         else m_players (clientDisconnected (Some a) s) = remove1 a (m_players s) \<and>
              a \<notin> set (m_players (clientDisconnected (Some a) s)) \<and>
              rosterIds (clientDisconnected (Some a) s) =
                map int [0 ..< length (m_players (clientDisconnected (Some a) s))]"
proof (cases "timerActive s")
  case True
  then show ?thesis
    by (simp add: clientDisconnected_active endRound_roster rosterIds_def endRound_pid)
next
  case False
  have d: "distinct (remove1 a (m_players s))" using assms(1) by simp
  have "rosterIds (clientDisconnected (Some a) s) =
        map (\<lambda>p. pid (setIds 0 (remove1 a (m_players s)) (heap s) p)) (remove1 a (m_players s))"
    using False assms(2)
    by (simp add: clientDisconnected_inactive rosterIds_def exportPlayerList_def emit_def)
  also have "\<dots> = map int [0 ..< 0 + length (remove1 a (m_players s))]"
    using d by (rule setIds_map_pid)
  finally have ids: "rosterIds (clientDisconnected (Some a) s) =
        map int [0 ..< length (remove1 a (m_players s))]" by simp
  have ps: "m_players (clientDisconnected (Some a) s) = remove1 a (m_players s)"
    using False assms(2)
    by (simp add: clientDisconnected_inactive exportPlayerList_def emit_def)
  show ?thesis using False ids ps assms(1) by simp
qed

lemma twoBots_facts:
  "m_players twoBots = [0, 1] \<and> \<not> timerActive twoBots \<and> m_map twoBots = arena"
  by (simp add: example_defs operation_defs Let_def)

lemma duelStarted_facts:
  "m_players duelStarted = [0, 1] \<and> timerActive duelStarted \<and> m_map duelStarted = arena \<and>
   rosterIds duelStarted = [0, 1]"
  by (simp add: example_defs operation_defs Let_def rosterIds_def)

text \<open>The property in the lobby and in a running round.\<close>

theorem disconnect_witness:
  "m_players (clientDisconnected (Some 0) twoBots) = [1] \<and>
   rosterIds (clientDisconnected (Some 0) twoBots) = [0] \<and>
   clientDisconnected (Some 1) duelStarted = duelStarted"
proof -
  have "distinct (m_players twoBots)" "0 \<in> set (m_players twoBots)"
    "distinct (m_players duelStarted)" "1 \<in> set (m_players duelStarted)"
    using twoBots_facts duelStarted_facts by simp_all
  then show ?thesis
    using disconnect_ignored_while_timer_runs_else_removed_and_renumbered[of twoBots 0]
      disconnect_ignored_while_timer_runs_else_removed_and_renumbered[of duelStarted 1]
      twoBots_facts duelStarted_facts
    by simp
qed

text \<open>
  C2 as it is worded fails twice. The removal is not deferred to the end of the round: the
  second player disconnects while the round runs; after \<open>endRound\<close> the timer is stopped
  and the player is still in the roster, and it is still there when the next round has
  started. And a round that is active but paused does not keep its roster: the first player
  disconnects while the round is paused, is removed at once, and the id of the second
  player changes from 1 to 0 in the middle of the round.
\<close>

theorem disconnect_never_deferred_and_removed_in_paused_round:
  "timerActive duelStarted \<and>
   \<not> timerActive (endRound dropped) \<and> m_players (endRound dropped) = [0, 1] \<and>
   m_players (orElse (startRound demoEnv (endRound dropped)) lobby) = [0, 1] \<and>
   \<not> timerActive paused \<and> m_players paused = [0, 1] \<and> rosterIds paused = [0, 1] \<and>
   m_players (clientDisconnected (Some 0) paused) = [1] \<and>
   rosterIds (clientDisconnected (Some 0) paused) = [0]"
proof -
  have c: "dropped = duelStarted"
    using duelStarted_facts by (simp add: dropped_def clientDisconnected_active)
  have "m_players (orElse (startRound demoEnv (endRound duelStarted)) lobby) = [0, 1]"
    by (simp add: example_defs operation_defs Let_def)
  moreover have "\<not> timerActive paused \<and> m_players paused = [0, 1] \<and> rosterIds paused = [0, 1] \<and>
      m_players (clientDisconnected (Some 0) paused) = [1] \<and>
      rosterIds (clientDisconnected (Some 0) paused) = [0]"
    by (simp add: example_defs operation_defs Let_def rosterIds_def)
  ultimately show ?thesis
    using duelStarted_facts by (simp add: c endRound_roster endRound_timer)
qed

subsection \<open>Connecting\<close>

subsection \<open>C7: connecting\<close>

text \<open>
  C7, as the code has it. If the roster holds as many players as the map has starting
  positions, or the timer runs, the connection is closed and neither the roster nor any
  player nor the allocator changes. Otherwise a new player is appended to the roster with
  the channel attached, the remote name, the next id and the starting position of that id,
  which exists. A paused round has its timer stopped and does not refuse connections.
\<close>

theorem connection_refused_when_full_or_timer_running_else_player_added:
  "if length (m_players s) \<ge> length (startingPositions (m_map s)) \<or> timerActive s
   then m_players (clientConnect c s) = m_players s \<and> heap (clientConnect c s) = heap s \<and>
        nextAddr (clientConnect c s) = nextAddr s \<and>
        trace (clientConnect c s) = trace s @ [SocketClosed]
   else m_players (clientConnect c s) = m_players s @ [nextAddr s] \<and>
        heap (clientConnect c s) =
          (heap s)(nextAddr s :=
             \<lparr>pid = int (length (m_players s)), pname = remoteName c,
              position = startingPositions (m_map s) ! length (m_players s),
              alive = True, command = [], wins = 0, networkClient = Some c\<rparr>) \<and>
        length (m_players s) < length (startingPositions (m_map s))"
  by (simp add: clientConnect_def addPlayer_def emit_def exportPlayerList_def newPlayer_def Let_def)

text \<open>The property in a running round (refused) and in the lobby (third player added).\<close>

theorem connection_witness:
  "m_players (clientConnect (bot ''c'') duelStarted) = [0, 1] \<and>
   m_players (clientConnect (bot ''c'') twoBots) = [0, 1, 2] \<and>
   position (heap (clientConnect (bot ''c'') twoBots) 2) = (3, 1)"
proof -
  have "nextAddr twoBots = 2"
    by (simp add: example_defs operation_defs Let_def)
  then show ?thesis
    using connection_refused_when_full_or_timer_running_else_player_added[of duelStarted "bot ''c''"]
      connection_refused_when_full_or_timer_running_else_player_added[of twoBots "bot ''c''"]
      twoBots_facts duelStarted_facts
    by (simp add: arena_def)
qed

text \<open>
  C7 as it is worded fails: the claim has a paused round refuse connections. Pausing the
  running round stops the timer, and a connection is then accepted into the roster.
\<close>

theorem connection_accepted_while_round_is_paused:
  "timerActive duelStarted \<and> \<not> timerActive (togglePause duelStarted) \<and>
   m_players (togglePause duelStarted) = [0, 1] \<and>
   m_players (clientConnect (bot ''c'') (togglePause duelStarted)) = [0, 1, 2]"
  by (simp add: example_defs operation_defs Let_def)

subsection \<open>Eviction on loadMap\<close>

lemma takeAt_append_snoc: "takeAt (length xs) (xs @ x # ys) = xs @ ys"
  by (simp add: takeAt_def)

lemma kickLoop_snoc:
  "kickLoop cap (Suc (length xs)) h ((xs @ [x]) @ ys) =
     (if length xs + Suc (length ys) \<le> cap then xs @ x # ys
      else if isLocal h x then kickLoop cap (length xs) h (xs @ (x # ys))
      else kickLoop cap (length xs) h (xs @ ys))"
  by (simp add: isLocal_def takeAt_append_snoc nth_append)

lemma kickLoop_shape:
  "\<exists>k \<le> length xs.
     kickLoop cap (length xs) h (xs @ ys) = take k xs @ filter (isLocal h) (drop k xs) @ ys \<and>
     length (kickLoop cap (length xs) h (xs @ ys)) =
       min (length xs + length ys) (max cap (length (filter (isLocal h) xs) + length ys))"
proof (induction xs arbitrary: ys rule: rev_induct)
  case Nil
  show ?case by simp
next
  case (snoc x xs)
  let ?L = "\<lambda>zs. length (filter (isLocal h) zs)"
  have le: "?L xs \<le> length xs" by simp
  consider (fits) "length xs + Suc (length ys) \<le> cap"
    | (local) "\<not> length xs + Suc (length ys) \<le> cap" "isLocal h x"
    | (net) "\<not> length xs + Suc (length ys) \<le> cap" "\<not> isLocal h x"
    by blast
  then show ?case
  proof cases
    case fits
    have "kickLoop cap (length (xs @ [x])) h ((xs @ [x]) @ ys) = xs @ x # ys"
      using fits kickLoop_snoc[of cap xs h x ys] by simp
    moreover have "min (length (xs @ [x]) + length ys)
                     (max cap (?L (xs @ [x]) + length ys)) = length xs + Suc (length ys)"
      using fits by simp
    ultimately show ?thesis
      by (intro exI[of _ "length (xs @ [x])"]) simp
  next
    case local
    obtain k where k: "k \<le> length xs"
      and sh: "kickLoop cap (length xs) h (xs @ (x # ys)) =
                 take k xs @ filter (isLocal h) (drop k xs) @ x # ys"
      and ln: "length (kickLoop cap (length xs) h (xs @ (x # ys))) =
                 min (length xs + length (x # ys)) (max cap (?L xs + length (x # ys)))"
      using snoc.IH[of "x # ys"] by blast
    have eq: "kickLoop cap (length (xs @ [x])) h ((xs @ [x]) @ ys) =
              kickLoop cap (length xs) h (xs @ (x # ys))"
      using local kickLoop_snoc[of cap xs h x ys] by simp
    have "kickLoop cap (length (xs @ [x])) h ((xs @ [x]) @ ys) =
            take k (xs @ [x]) @ filter (isLocal h) (drop k (xs @ [x])) @ ys"
      unfolding eq sh using k local(2) by simp
    moreover have "length (kickLoop cap (length (xs @ [x])) h ((xs @ [x]) @ ys)) =
            min (length (xs @ [x]) + length ys) (max cap (?L (xs @ [x]) + length ys))"
      unfolding eq ln using local(2) by simp
    moreover have "k \<le> length (xs @ [x])" using k by simp
    ultimately show ?thesis by blast
  next
    case net
    obtain k where k: "k \<le> length xs"
      and sh: "kickLoop cap (length xs) h (xs @ ys) =
                 take k xs @ filter (isLocal h) (drop k xs) @ ys"
      and ln: "length (kickLoop cap (length xs) h (xs @ ys)) =
                 min (length xs + length ys) (max cap (?L xs + length ys))"
      using snoc.IH[of ys] by blast
    have eq: "kickLoop cap (length (xs @ [x])) h ((xs @ [x]) @ ys) =
              kickLoop cap (length xs) h (xs @ ys)"
      using net kickLoop_snoc[of cap xs h x ys] by simp
    have "kickLoop cap (length (xs @ [x])) h ((xs @ [x]) @ ys) =
            take k (xs @ [x]) @ filter (isLocal h) (drop k (xs @ [x])) @ ys"
      unfolding eq sh using k net(2) by simp
    moreover have "length (kickLoop cap (length (xs @ [x])) h ((xs @ [x]) @ ys)) =
            min (length (xs @ [x]) + length ys) (max cap (?L (xs @ [x]) + length ys))"
    proof -
      have f: "?L (xs @ [x]) = ?L xs" using net(2) by simp
      have "min (length xs + length ys) (max cap (?L xs + length ys)) =
            min (Suc (length xs) + length ys) (max cap (?L xs + length ys))"
        using net(1) le by linarith
      then show ?thesis unfolding eq ln f by simp
    qed
    moreover have "k \<le> length (xs @ [x])" using k by simp
    ultimately show ?thesis by blast
  qed
qed

lemma kickLoop_roster:
  "\<exists>k \<le> length ps.
     kickLoop cap (length ps) h ps = take k ps @ filter (isLocal h) (drop k ps) \<and>
     length (kickLoop cap (length ps) h ps) =
       min (length ps) (max cap (length (filter (isLocal h) ps)))"
  using kickLoop_shape[of ps cap h "[]"] by simp

lemma distinct_take_filter_drop: "distinct ps \<Longrightarrow> distinct (take k ps @ filter P (drop k ps))"
  using set_take_disj_set_drop_if_distinct[of ps k k] by auto

subsection \<open>Placing the players\<close>

lemma placeLoop_other: "placeLoop sp i ps h = Inr h' \<Longrightarrow> q \<notin> set ps \<Longrightarrow> h' q = h q"
  by (induction ps arbitrary: i h) (auto split: if_splits)

lemma placeLoop_fits:
  "i + length ps \<le> length sp \<Longrightarrow> \<exists>h'. placeLoop sp i ps h = Inr h'"
  by (induction ps arbitrary: i h) simp_all

lemma placeLoop_placed:
  "placeLoop sp i ps h = Inr h' \<Longrightarrow> distinct ps \<Longrightarrow> j < length ps \<Longrightarrow>
     position (h' (ps ! j)) = sp ! (i + j) \<and> pid (h' (ps ! j)) = int (i + j)"
proof (induction ps arbitrary: i h j)
  case Nil
  then show ?case by simp
next
  case (Cons p ps)
  from Cons.prems(1) have i: "i < length sp"
    and rest: "placeLoop sp (Suc i) ps (h(p := (h p)\<lparr>position := sp ! i, pid := int i\<rparr>)) = Inr h'"
    by (simp_all split: if_splits)
  show ?case
  proof (cases j)
    case 0
    have "h' p = (h(p := (h p)\<lparr>position := sp ! i, pid := int i\<rparr>)) p"
      using placeLoop_other[OF rest, of p] Cons.prems(2) by simp
    with 0 show ?thesis by simp
  next
    case (Suc j')
    with Cons.prems Cons.IH[OF rest, of j'] show ?thesis by simp
  qed
qed

subsection \<open>C9: loading a map\<close>

text \<open>
  C9, as the code has it. Let the new map be valid and have at least as many starting
  positions as the roster has locally-controlled players (the roster holds each player
  once). Then \<open>loadMap\<close> succeeds, and its roster is the old one with the network players
  from some index \<open>k\<close> upwards taken out: only network players go, from the highest index
  down, no local player goes, and no more go than needed, the new length being the smaller
  of the old length and the number of starting positions. Every remaining player stands on
  the starting position of its index and has its index as id.
\<close>

theorem loadMap_evicts_network_players_from_the_end:
  assumes "readMap e path = Some m" and "distinct (m_players s)"
    and "length (filter (isLocal (heap s)) (m_players s)) \<le> length (startingPositions m)"
  shows "\<exists>s' k. loadMap e path s = Inr s' \<and> m_map s' = m \<and>
           m_players s' = take k (m_players s) @ filter (isLocal (heap s)) (drop k (m_players s)) \<and>
           length (m_players s') = min (length (m_players s)) (length (startingPositions m)) \<and>
           map (\<lambda>p. position (heap s' p)) (m_players s') =
             take (length (m_players s')) (startingPositions m) \<and>
           rosterIds s' = map int [0 ..< length (m_players s')]"
proof -
  let ?sp = "startingPositions m"
  let ?ps = "kickLoop (length ?sp) (length (m_players s)) (heap s) (m_players s)"
  obtain k where k: "k \<le> length (m_players s)"
    and sh: "?ps = take k (m_players s) @ filter (isLocal (heap s)) (drop k (m_players s))"
    and ln: "length ?ps = min (length (m_players s))
                            (max (length ?sp) (length (filter (isLocal (heap s)) (m_players s))))"
    using kickLoop_roster[of "m_players s" "length ?sp" "heap s"] by blast
  have ln': "length ?ps = min (length (m_players s)) (length ?sp)"
    using ln assms(3) by (simp add: max_absorb1)
  have d: "distinct ?ps" unfolding sh using assms(2) by (rule distinct_take_filter_drop)
  obtain h' where pl: "placeLoop ?sp 0 ?ps (heap s) = Inr h'"
    using placeLoop_fits[of 0 ?ps ?sp "heap s"] ln' by auto
  let ?s' = "emit [PlayersExported ?ps, MapExported (mapName m)]
               (s\<lparr>m_map := m, m_players := ?ps, heap := h'\<rparr>)"
  have lm: "loadMap e path s = Inr ?s'"
    using assms(1) pl by (simp add: loadMap_def Let_def)
  have placed: "\<And>j. j < length ?ps \<Longrightarrow>
      position (h' (?ps ! j)) = ?sp ! j \<and> pid (h' (?ps ! j)) = int j"
    using placeLoop_placed[OF pl d] by simp
  have pos: "map (\<lambda>p. position (h' p)) ?ps = take (length ?ps) ?sp"
    using ln' by (intro nth_equalityI) (simp_all add: placed)
  have ids: "map (\<lambda>p. pid (h' p)) ?ps = map int [0 ..< length ?ps]"
    by (intro nth_equalityI) (simp_all add: placed)
  have "m_map ?s' = m" "m_players ?s' = ?ps" "heap ?s' = h'"
    by (simp_all add: emit_def)
  then show ?thesis
    using lm sh ln' pos ids unfolding rosterIds_def by (intro exI[of _ ?s'] exI[of _ k]) simp
qed

text \<open>
  The property on a local player and two network players loaded onto the map with one
  starting position: the local player alone remains.
\<close>

theorem loadMap_witness:
  "\<exists>s'. loadMap demoEnv ''closet'' threeUp = Inr s' \<and> length (m_players s') = 1 \<and>
         rosterIds s' = [0] \<and> map (\<lambda>p. position (heap s' p)) (m_players s') = [(1, 1)]"
proof -
  have r: "readMap demoEnv ''closet'' = Some closet" by (simp add: demoEnv_def)
  have d: "distinct (m_players threeUp)" using threeUp_facts by simp
  have l: "length (filter (isLocal (heap threeUp)) (m_players threeUp)) \<le>
           length (startingPositions closet)"
    using threeUp_facts by (auto simp: isLocal_def closet_def)
  obtain s' where s': "loadMap demoEnv ''closet'' threeUp = Inr s'"
    and ln: "length (m_players s') =
               min (length (m_players threeUp)) (length (startingPositions closet))"
    and pos: "map (\<lambda>p. position (heap s' p)) (m_players s') =
                take (length (m_players s')) (startingPositions closet)"
    and ids: "rosterIds s' = map int [0 ..< length (m_players s')]"
    using loadMap_evicts_network_players_from_the_end[OF r d l] by blast
  have one: "length (m_players s') = 1"
    using ln threeUp_facts by (simp add: closet_def)
  have "rosterIds s' = [0]" using ids one by simp
  moreover have "map (\<lambda>p. position (heap s' p)) (m_players s') = [(1, 1)]"
    using pos one by (simp add: closet_def)
  ultimately show ?thesis using s' one by (intro exI[of _ s']) simp
qed

text \<open>
  C9 as it is worded fails: eviction does not always go on until the roster fits. Two local
  players are loaded onto the map with one starting position; the loop of lines 125-132
  evicts nobody, the roster of two does not fit, and the loop of lines 135-138 then reads
  \<open>startingPositions()[1]\<close> out of range.
\<close>

theorem loadMap_cannot_fit_two_local_players:
  "readMap demoEnv ''closet'' = Some closet \<and> length (startingPositions closet) = 1 \<and>
   m_players twoHumans = [0, 1] \<and>
   networkClient (heap twoHumans 0) = None \<and> networkClient (heap twoHumans 1) = None \<and>
   kickLoop (length (startingPositions closet)) (length (m_players twoHumans))
     (heap twoHumans) (m_players twoHumans) = [0, 1] \<and>
   loadMap demoEnv ''closet'' twoHumans = Inl (IndexOutOfRange 1)"
  by (simp add: example_defs operation_defs Let_def)

subsection \<open>Rounds of a match\<close>

lemma processPlayer_idle: "command (fst hm p) = [] \<Longrightarrow> processPlayer e pl p hm = hm"
  by (cases hm) (simp add: processPlayer_def)

lemma processLoop_idle:
  "(\<And>p. p \<in> set ps \<Longrightarrow> command (fst hm p) = []) \<Longrightarrow> processLoop e pl ps hm = hm"
  by (induction ps arbitrary: hm) (simp_all add: processPlayer_idle)

lemma resolved_idle:
  assumes "\<And>p. p \<in> set (m_players s) \<Longrightarrow> command (heap s p) = []"
  shows "heap (snd (resolved e s)) = heap s \<and> m_map (snd (resolved e s)) = m_map s"
proof -
  obtain players g where
    sh: "shuffle (qrand e) (length (m_players s) - 1) (m_players s) (rng s) = (players, g)"
    by (cases "shuffle (qrand e) (length (m_players s) - 1) (m_players s) (rng s)")
  have "mset players = mset (m_players s)"
    using shuffle_roster_mset[of "qrand e" "m_players s" "rng s"] sh by simp
  then have "set players = set (m_players s)" by (rule mset_eq_setD)
  then have "processLoop e players players (heap s, m_map s) = (heap s, m_map s)"
    using assms by (intro processLoop_idle) simp
  then show ?thesis using sh by (simp add: resolved_def)
qed

lemma awardWin_find:
  "awardWin ps h =
     (case find (\<lambda>p. alive (h p)) ps of
        None \<Rightarrow> h
      | Some p \<Rightarrow> h(p := (h p)\<lparr>wins := Suc (wins (h p))\<rparr>))"
  by (induction ps) (simp_all add: fun_upd_def)

lemma endRound_heap:
  "heap (endRound s) = (if m_roundsPlayed s < 5 then awardWin (m_players s) (heap s) else heap s)"
  by (simp add: endRound_def emit_def Let_def)

lemma endRound_awards_first_alive:
  "m_roundsPlayed s < 5 \<Longrightarrow>
     heap (endRound s) =
       (case find (\<lambda>p. alive (heap s p)) (m_players s) of
          None \<Rightarrow> heap s
        | Some p \<Rightarrow> (heap s)(p := (heap s p)\<lparr>wins := Suc (wins (heap s p))\<rparr>))"
  by (simp add: endRound_heap awardWin_find)

lemma endRound_counter:
  "m_roundsPlayed (endRound s) = (if m_roundsPlayed s < 5 then m_roundsPlayed s + 1 else 0)"
  by (simp add: endRound_def emit_def Let_def)

lemma endRound_map: "m_map (endRound s) = m_map s"
  by (simp add: endRound_def emit_def Let_def)

lemma gameTick_ends:
  "roundEnds s \<Longrightarrow> gameTick e s = endRound (emit [GameOver] (snd (resolved e s)))"
  by (simp add: gameTick_cases)

lemma blownUp_idleDuel:
  assumes "idleDuel s"
  shows "m_players (blownUp s) = [0, 1] \<and> m_map (blownUp s) = arena \<and>
         alive (heap (blownUp s) 0) \<and> \<not> alive (heap (blownUp s) 1) \<and>
         networkClient (heap (blownUp s) 0) \<noteq> None \<and> networkClient (heap (blownUp s) 1) \<noteq> None \<and>
         command (heap (blownUp s) 0) = [] \<and> command (heap (blownUp s) 1) = [] \<and>
         wins (heap (blownUp s) 0) = wins (heap s 0) \<and> wins (heap (blownUp s) 1) = wins (heap s 1) \<and>
         m_roundsPlayed (blownUp s) = m_roundsPlayed s \<and>
         trace (blownUp s) = trace s @ [PlayersExported [0, 1], MapExported ''arena'']"
proof -
  obtain c0 c1 where c: "networkClient (heap s 0) = Some c0" "networkClient (heap s 1) = Some c1"
    using assms by (auto simp: idleDuel_def)
  have i: "m_players s = [0, 1]" "m_map s = arena" "command (heap s 0) = []" "command (heap s 1) = []"
    using assms by (simp_all add: idleDuel_def)
  show ?thesis
    using i c
    by (simp add: blownUp_def orElse_def startRound_def loadMap_def explosionAt_def emit_def
        Let_def takeAt_def arena_def demoEnv_def)
qed

lemma playRound_idleDuel:
  assumes "idleDuel s"
  shows "idleDuel (playRound s) \<and>
         m_roundsPlayed (playRound s) = (if m_roundsPlayed s < 5 then m_roundsPlayed s + 1 else 0) \<and>
         wins (heap (playRound s) 0) =
           (if m_roundsPlayed s < 5 then Suc (wins (heap s 0)) else wins (heap s 0)) \<and>
         wins (heap (playRound s) 1) = wins (heap s 1) \<and>
         trace (playRound s) =
           trace s @ [PlayersExported [0, 1], MapExported ''arena'', GameOver,
                      SendEndOfRound 0, SendEndOfRound 1,
                      if m_roundsPlayed s < 5 then StartRoundScheduled else EndScreenShown]"
proof -
  note b = blownUp_idleDuel[OF assms]
  let ?r = "snd (resolved demoEnv (blownUp s))"
  have ends: "roundEnds (blownUp s)"
    using b by (simp add: roundEnds_def deadIn_def aliveIn_def)
  have idle: "\<And>p. p \<in> set (m_players (blownUp s)) \<Longrightarrow> command (heap (blownUp s) p) = []"
    using b by auto
  have r: "heap ?r = heap (blownUp s)" "m_map ?r = m_map (blownUp s)"
    "m_players ?r = m_players (blownUp s)" "trace ?r = trace (blownUp s)"
    "m_roundsPlayed ?r = m_roundsPlayed (blownUp s)"
    using resolved_idle[OF idle, of demoEnv] resolved_state[of demoEnv "blownUp s"] by simp_all
  have p: "playRound s = endRound (emit [GameOver] ?r)"
    using ends by (simp add: playRound_def gameTick_ends)
  have e: "heap (emit [GameOver] ?r) = heap (blownUp s)"
    "m_players (emit [GameOver] ?r) = [0, 1]"
    "m_map (emit [GameOver] ?r) = arena"
    "m_roundsPlayed (emit [GameOver] ?r) = m_roundsPlayed s"
    "trace (emit [GameOver] ?r) = trace s @ [PlayersExported [0, 1], MapExported ''arena'', GameOver]"
    using b r by (simp_all add: emit_def)
  show ?thesis
    unfolding p using b
    by (simp add: idleDuel_def endRound_roster endRound_map endRound_heap endRound_counter
        endRound_trace e hasClient_def)
qed

lemma playRound_scored:
  assumes "idleDuel s" and "m_roundsPlayed s = n" and "n < 5" and "wins (heap s 0) = w"
    and "EndScreenShown \<notin> set (trace s)"
  shows "idleDuel (playRound s) \<and> m_roundsPlayed (playRound s) = n + 1 \<and>
         wins (heap (playRound s) 0) = Suc w \<and> EndScreenShown \<notin> set (trace (playRound s)) \<and>
         last (trace (playRound s)) = StartRoundScheduled"
  using playRound_idleDuel[OF assms(1)] assms(2-5) by simp

lemma twoBots_idleDuel:
  "idleDuel twoBots \<and> m_roundsPlayed twoBots = 0 \<and> wins (heap twoBots 0) = 0 \<and>
   EndScreenShown \<notin> set (trace twoBots)"
  by (simp add: idleDuel_def example_defs operation_defs Let_def)

lemma afterFive_facts:
  "idleDuel afterFive \<and> m_roundsPlayed afterFive = 5 \<and> wins (heap afterFive 0) = 5 \<and>
   EndScreenShown \<notin> set (trace afterFive) \<and> last (trace afterFive) = StartRoundScheduled"
proof -
  let ?s1 = "playRound twoBots"
  let ?s2 = "playRound ?s1"
  let ?s3 = "playRound ?s2"
  let ?s4 = "playRound ?s3"
  have 1: "idleDuel ?s1 \<and> m_roundsPlayed ?s1 = 1 \<and> wins (heap ?s1 0) = 1 \<and>
           EndScreenShown \<notin> set (trace ?s1)"
    using playRound_scored[of twoBots 0 0] twoBots_idleDuel by simp
  then have 2: "idleDuel ?s2 \<and> m_roundsPlayed ?s2 = 2 \<and> wins (heap ?s2 0) = 2 \<and>
           EndScreenShown \<notin> set (trace ?s2)"
    using playRound_scored[of ?s1 1 1] by simp
  then have 3: "idleDuel ?s3 \<and> m_roundsPlayed ?s3 = 3 \<and> wins (heap ?s3 0) = 3 \<and>
           EndScreenShown \<notin> set (trace ?s3)"
    using playRound_scored[of ?s2 2 2] by simp
  then have 4: "idleDuel ?s4 \<and> m_roundsPlayed ?s4 = 4 \<and> wins (heap ?s4 0) = 4 \<and>
           EndScreenShown \<notin> set (trace ?s4)"
    using playRound_scored[of ?s3 3 3] by simp
  then show ?thesis
    unfolding afterFive_def using playRound_scored[of ?s4 4 4] by simp
qed

subsection \<open>C3: the rounds of a match\<close>

text \<open>
  C3. The claim: after the fifth round resolution the match is over, the tallies are shown,
  the counter is 0 again and no sixth round starts. The code tests \<open>m_roundsPlayed < 5\<close>
  before it counts the round just resolved (lines 174-182). In a match of two network
  players whose second player is blown up every round, the fifth resolution leaves the
  counter at 5, awards the fifth win, shows no end screen and schedules \<open>startRound\<close>;
  only the resolution of that sixth round shows the end screen and resets the counter, and
  it awards no win.
\<close>

theorem fifth_resolution_starts_a_sixth_round:
  "m_roundsPlayed afterFive = 5 \<and> wins (heap afterFive 0) = 5 \<and>
   last (trace afterFive) = StartRoundScheduled \<and> EndScreenShown \<notin> set (trace afterFive) \<and>
   m_roundsPlayed (playRound afterFive) = 0 \<and>
   last (trace (playRound afterFive)) = EndScreenShown \<and>
   wins (heap (playRound afterFive) 0) = 5"
  using afterFive_facts playRound_idleDuel[of afterFive] by simp

subsection \<open>C8: the win of a round\<close>

text \<open>
  C8. The claim: every round resolution adds one win to the first alive player of the
  roster, if there is one. The code awards the win only in the branch
  \<open>m_roundsPlayed < 5\<close> (lemma \<open>endRound_awards_first_alive\<close>). The sixth round of the
  match above is resolved with the counter at 5: its first player is alive, the round ends,
  and neither \<open>endRound\<close> nor the tick that calls it changes any win.
\<close>

theorem sixth_resolution_awards_no_win:
  "m_roundsPlayed sixthRound = 5 \<and> roundEnds sixthRound \<and>
   aliveIn (heap sixthRound) (m_players sixthRound) = [0] \<and>
   wins (heap (endRound sixthRound) 0) = wins (heap sixthRound 0) \<and>
   wins (heap (endRound sixthRound) 1) = wins (heap sixthRound 1) \<and>
   wins (heap (gameTick demoEnv sixthRound) 0) = wins (heap sixthRound 0) \<and>
   wins (heap (gameTick demoEnv sixthRound) 1) = wins (heap sixthRound 1)"
proof -
  have i: "idleDuel afterFive" and n: "m_roundsPlayed afterFive = 5"
    using afterFive_facts by simp_all
  note b = blownUp_idleDuel[OF i]
  have t: "gameTick demoEnv sixthRound = playRound afterFive"
    by (simp add: playRound_def sixthRound_def)
  show ?thesis
    unfolding t using b n playRound_idleDuel[OF i]
    by (simp add: sixthRound_def roundEnds_def deadIn_def aliveIn_def endRound_heap)
qed

subsection \<open>Round start\<close>

lemma lockNames_local:
  "p \<in> set ps \<Longrightarrow> networkClient (h p) = None \<Longrightarrow> \<exists>f. lockNames ps h = Inl f"
proof (induction ps arbitrary: h)
  case Nil
  then show ?case by simp
next
  case (Cons q ps)
  show ?case
  proof (cases "networkClient (h q)")
    case None
    then show ?thesis by simp
  next
    case (Some c)
    with Cons.prems have "p \<noteq> q" by auto
    with Cons.prems have "p \<in> set ps" by simp
    moreover have
      "networkClient ((h(q := (h q)\<lparr>networkClient := Some (c\<lparr>nameChangeConnected := False\<rparr>)\<rparr>)) p) = None"
      using Cons.prems(2) \<open>p \<noteq> q\<close> by simp
    ultimately show ?thesis using Some Cons.IH by simp
  qed
qed

lemma reviveLoop_networkClient:
  "reviveLoop sp i ps h = Inr h' \<Longrightarrow> networkClient (h' q) = networkClient (h q)"
  by (induction ps arbitrary: i h) (auto split: if_splits)

lemma placeLoop_networkClient:
  "placeLoop sp i ps h = Inr h' \<Longrightarrow> networkClient (h' q) = networkClient (h q)"
  by (induction ps arbitrary: i h) (auto split: if_splits)

lemma kickLoop_keeps_local:
  assumes "p \<in> set ps" and "isLocal h p"
  shows "p \<in> set (kickLoop cap (length ps) h ps)"
proof -
  obtain k where "kickLoop cap (length ps) h ps = take k ps @ filter (isLocal h) (drop k ps)"
    using kickLoop_roster[of ps cap h] by blast
  moreover have "p \<in> set (take k ps) \<or> p \<in> set (drop k ps)"
    using assms(1) by (metis Un_iff append_take_drop_id set_append)
  ultimately show ?thesis using assms(2) by auto
qed

lemma loadMap_keeps_local:
  assumes "loadMap e path s = Inr s'" and "p \<in> set (m_players s)"
    and "networkClient (heap s p) = None"
  shows "p \<in> set (m_players s') \<and> networkClient (heap s' p) = None"
proof (cases "readMap e path")
  case None
  then show ?thesis using assms by (auto simp: loadMap_def emit_def)
next
  case (Some m)
  let ?ps = "kickLoop (length (startingPositions m)) (length (m_players s)) (heap s) (m_players s)"
  obtain h' where pl: "placeLoop (startingPositions m) 0 ?ps (heap s) = Inr h'"
    and s': "s' = emit [PlayersExported ?ps, MapExported (mapName m)]
                    (s\<lparr>m_map := m, m_players := ?ps, heap := h'\<rparr>)"
    using assms(1) Some by (auto simp: loadMap_def Let_def split: sum.splits)
  have "p \<in> set ?ps"
    using assms(2,3) by (intro kickLoop_keeps_local) (simp_all add: isLocal_def)
  moreover have "networkClient (h' p) = None"
    using placeLoop_networkClient[OF pl, of p] assms(3) by simp
  ultimately show ?thesis by (simp add: s' emit_def)
qed

lemma startRound_faults_with_local_player:
  assumes "p \<in> set (m_players s)" and "networkClient (heap s p) = None"
  shows "\<exists>f. startRound e s = Inl f"
proof (cases "reviveLoop (startingPositions (m_map s)) 0 (m_players s) (heap s)")
  case (Inl f)
  then show ?thesis using assms(1) by (auto simp: startRound_def)
next
  case (Inr h)
  have hp: "networkClient (h p) = None"
    using reviveLoop_networkClient[OF Inr, of p] assms(2) by simp
  show ?thesis
  proof (cases "loadMap e (mapName (m_map s)) (s\<lparr>heap := h\<rparr>)")
    case (Inl f)
    then show ?thesis using assms(1) Inr by (auto simp: startRound_def)
  next
    case s1: (Inr s1)
    have "p \<in> set (m_players s1) \<and> networkClient (heap s1 p) = None"
      using loadMap_keeps_local[OF s1, of p] assms(1) hp by simp
    then obtain f where "lockNames (m_players s1) (heap s1) = Inl f"
      using lockNames_local by blast
    then show ?thesis using assms(1) Inr s1 by (auto simp: startRound_def)
  qed
qed

subsection \<open>C10: round start and the locally-controlled player\<close>

text \<open>
  C10. The claim: starting a round locks the name only of network-attached players, so a
  roster with a locally-controlled player starts its round without touching the channel
  that player does not have. The code: the loop of lines 205-207 calls
  \<open>networkClient()->disconnect(...)\<close> for every player and tests no pointer, unlike
  \<open>endRound\<close>, \<open>loadMap\<close> and \<open>gameTick\<close>. With a local player at address 0 and a
  network player beside it, \<open>startRound\<close> goes through the null channel of player 0.
  No roster with a local player gets through \<open>startRound\<close>
  (lemma \<open>startRound_faults_with_local_player\<close>).
\<close>

theorem startRound_local_player_null_channel:
  "m_players mixed = [0, 1] \<and> networkClient (heap mixed 0) = None \<and>
   startRound demoEnv mixed = Inl (NullChannel 0)"
  by (simp add: example_defs operation_defs Let_def)

end
